theory Spec2Isabelle
  imports Complex_Main "HOL-Library.Sublist"
begin

section \<open>Strings\<close>

text \<open>
  A Python \<open>str\<close> is modelled as a \<open>string\<close>: a list of characters whose code
  points are below 256. Every literal of the program (URL markers, file extensions,
  quality tokens, units) is ASCII.
\<close>

definition in_range :: "char \<Rightarrow> char \<Rightarrow> char \<Rightarrow> bool" where
  "in_range lo hi c = ((of_char lo :: nat) \<le> of_char c \<and> (of_char c :: nat) \<le> of_char hi)"

definition is_digit :: "char \<Rightarrow> bool" where
  "is_digit c = in_range (CHR ''0'') (CHR ''9'') c"

text \<open>
  \<open>str.isspace\<close>, which is also the class \<open>\s\<close> of \<open>re\<close> on \<open>str\<close>: below 256 the
  code points 9 to 13, 28 to 32, 133 and 160.
\<close>

definition is_space :: "char \<Rightarrow> bool" where
  "is_space c = (let n = (of_char c :: nat) in
     (9 \<le> n \<and> n \<le> 13) \<or> (28 \<le> n \<and> n \<le> 32) \<or> n = 133 \<or> n = 160)"

text \<open>
  \<open>str.lower\<close> on one character: below 256 the upper-case letters are A to Z and
  the code points 192 to 222 except 215, each 32 below its lower-case letter.
\<close>

definition lower_chr :: "char \<Rightarrow> char" where
  "lower_chr c = (let n = (of_char c :: nat) in
     if (65 \<le> n \<and> n \<le> 90) \<or> (192 \<le> n \<and> n \<le> 222 \<and> n \<noteq> 215) then char_of (n + 32) else c)"

definition lower :: "string \<Rightarrow> string" where
  "lower s = map lower_chr s"

text \<open>
  \<open>str.upper\<close> on one character. The program applies it to the unit matched by
  \<open>(MB|KB|GB)\<close> only, that is to ASCII letters; the three code points below 256 whose
  upper case lies above 255 (181, 223, 255) are left as they are.
\<close>

definition upper_chr :: "char \<Rightarrow> char" where
  "upper_chr c = (let n = (of_char c :: nat) in
     if (97 \<le> n \<and> n \<le> 122) \<or> (224 \<le> n \<and> n \<le> 254 \<and> n \<noteq> 247) then char_of (n - 32) else c)"

definition upper :: "string \<Rightarrow> string" where
  "upper s = map upper_chr s"

text \<open>\<open>s.strip()\<close>: leading and trailing white space removed.\<close>

definition strip :: "string \<Rightarrow> string" where
  "strip s = rev (dropWhile is_space (rev (dropWhile is_space s)))"


text \<open>\<open>sub in s\<close>: some suffix of \<open>s\<close> starts with \<open>sub\<close>.\<close>

fun py_in :: "string \<Rightarrow> string \<Rightarrow> bool" where
  "py_in sub [] = (sub = [])"
| "py_in sub (c # s) = (prefix sub (c # s) \<or> py_in sub s)"


text \<open>\<open>f"{n}"\<close> for a non-negative integer: its decimal digits.\<close>

fun str_nat :: "nat \<Rightarrow> string" where
  "str_nat n = (if n < 10 then [char_of (48 + n)] else str_nat (n div 10) @ [char_of (48 + n mod 10)])"

declare str_nat.simps [simp del]

section \<open>Regular expressions (\<open>re.match\<close>, \<open>re.search\<close>)\<close>

text \<open>
  The patterns of the program use literals, character classes, \<open>\d\<close>, \<open>\s\<close>, the dot,
  concatenation, alternation and the greedy quantifiers \<open>?\<close>, \<open>*\<close>, \<open>+\<close>. \<open>LitI\<close> is a
  literal compiled under \<open>re.IGNORECASE\<close>.
\<close>

datatype rx =
    Eps
  | Lit char
  | LitI char
  | Rng "(char \<times> char) list"
  | Digit
  | Space
  | Dot
  | Seq rx rx
  | Alt rx rx
  | Opt rx
  | Star rx
  | Plus rx

text \<open>
  \<open>rems r s\<close> lists what is left of \<open>s\<close> after each way \<open>r\<close> matches a prefix of it, in
  the order the backtracking matcher of \<open>re\<close> tries them: the left alternative first, a
  further repetition before stopping. The first entry is the match \<open>re\<close> reports.
\<close>

text \<open>The tests of one character: a range and a class of ranges, a literal under \<open>re.IGNORECASE\<close>, the dot.\<close>

fun in_ranges :: "(char \<times> char) list \<Rightarrow> char \<Rightarrow> bool" where
  "in_ranges [] x = False"
| "in_ranges ((lo, hi) # rs) x = (in_range lo hi x \<or> in_ranges rs x)"

definition eq_ignorecase :: "char \<Rightarrow> char \<Rightarrow> bool" where
  "eq_ignorecase c x = (lower_chr x = lower_chr c)"

definition not_newline :: "char \<Rightarrow> bool" where
  "not_newline x = (x \<noteq> CHR 0x0A)"

definition one_char :: "(char \<Rightarrow> bool) \<Rightarrow> string \<Rightarrow> string list" where
  "one_char P s = (case s of [] \<Rightarrow> [] | c # t \<Rightarrow> if P c then [t] else [])"

text \<open>A repetition goes on only after an iteration that consumed a character.\<close>

function star_rems :: "(string \<Rightarrow> string list) \<Rightarrow> string \<Rightarrow> string list" where
  "star_rems f s = concat (map (star_rems f) (filter (\<lambda>t. length t < length s) (f s))) @ [s]"
  by pat_completeness auto
termination
  by (relation "measure (\<lambda>(f, s). length s)") auto

declare star_rems.simps [simp del]

fun rems :: "rx \<Rightarrow> string \<Rightarrow> string list" where
  "rems Eps s = [s]"
| "rems (Lit c) s = one_char ((=) c) s"
| "rems (LitI c) s = one_char (eq_ignorecase c) s"
| "rems (Rng rs) s = one_char (in_ranges rs) s"
| "rems Digit s = one_char is_digit s"
| "rems Space s = one_char is_space s"
| "rems Dot s = one_char not_newline s"
| "rems (Seq a b) s = concat (map (rems b) (rems a s))"
| "rems (Alt a b) s = rems a s @ rems b s"
| "rems (Opt a) s = rems a s @ [s]"
| "rems (Star a) s = star_rems (rems a) s"
| "rems (Plus a) s = concat (map (star_rems (rems a)) (rems a s))"


text \<open>
  A pattern \<open>(g1)mid(g2)\<close> with two groups, matched at the start of \<open>s\<close>: the groups
  of the first match in backtracking order.
\<close>

definition groups_of :: "string \<Rightarrow> string \<Rightarrow> string \<Rightarrow> string \<Rightarrow> string \<times> string" where
  "groups_of s t1 t2 t3 = (take (length s - length t1) s, take (length t2 - length t3) t2)"

definition match_unit :: "rx \<Rightarrow> string \<Rightarrow> string \<Rightarrow> string \<Rightarrow> (string \<times> string) list" where
  "match_unit g2 s t1 t2 = map (groups_of s t1 t2) (rems g2 t2)"

definition match_gap :: "rx \<Rightarrow> rx \<Rightarrow> string \<Rightarrow> string \<Rightarrow> (string \<times> string) list" where
  "match_gap mid g2 s t1 = concat (map (match_unit g2 s t1) (rems mid t1))"

definition match_groups :: "rx \<Rightarrow> rx \<Rightarrow> rx \<Rightarrow> string \<Rightarrow> (string \<times> string) option" where
  "match_groups g1 mid g2 s =
     (case concat (map (match_gap mid g2 s) (rems g1 s)) of
        [] \<Rightarrow> None
      | g # _ \<Rightarrow> Some g)"

text \<open>\<open>re.search\<close>: the match at the leftmost position that has one, the end of the string included.\<close>

fun re_search :: "rx \<Rightarrow> rx \<Rightarrow> rx \<Rightarrow> string \<Rightarrow> (string \<times> string) option" where
  "re_search g1 mid g2 [] = match_groups g1 mid g2 []"
| "re_search g1 mid g2 (c # s) =
     (case match_groups g1 mid g2 (c # s) of
        Some g \<Rightarrow> Some g
      | None \<Rightarrow> re_search g1 mid g2 s)"


primrec lits_ignorecase :: "string \<Rightarrow> rx" where
  "lits_ignorecase [] = Eps"
| "lits_ignorecase (c # cs) = Seq (LitI c) (lits_ignorecase cs)"


text \<open>The words of a pattern: the usual language of a regular expression.\<close>

inductive_set star :: "string set \<Rightarrow> string set" for A :: "string set" where
  star_nil: "[] \<in> star A"
| star_step: "u \<in> A \<Longrightarrow> v \<in> star A \<Longrightarrow> u @ v \<in> star A"

definition chars :: "(char \<Rightarrow> bool) \<Rightarrow> string set" where
  "chars P = {[c] | c. P c}"

definition conc :: "string set \<Rightarrow> string set \<Rightarrow> string set" where
  "conc A B = {u @ v | u v. u \<in> A \<and> v \<in> B}"

primrec lang :: "rx \<Rightarrow> string set" where
  "lang Eps = {[]}"
| "lang (Lit c) = chars ((=) c)"
| "lang (LitI c) = chars (eq_ignorecase c)"
| "lang (Rng rs) = chars (in_ranges rs)"
| "lang Digit = chars is_digit"
| "lang Space = chars is_space"
| "lang Dot = chars not_newline"
| "lang (Seq a b) = conc (lang a) (lang b)"
| "lang (Alt a b) = lang a \<union> lang b"
| "lang (Opt a) = insert [] (lang a)"
| "lang (Star a) = star (lang a)"
| "lang (Plus a) = conc (lang a) (star (lang a))"

definition rest_of :: "string set \<Rightarrow> string \<Rightarrow> string set" where
  "rest_of A s = {t. \<exists>u \<in> A. s = u @ t}"


section \<open>\<open>InstagramDownloader.sanitize_url\<close>\<close>









section \<open>\<open>InstagramDownloader.get_media_type\<close>\<close>


section \<open>\<open>InstagramDownloader._extract_quality\<close> and \<open>_extract_size\<close>\<close>

definition qualities :: "string list" where
  "qualities = [''hd'', ''high'', ''720p'', ''1080p'', ''4k'', ''sd'', ''low'']"

text \<open>The loop \<open>for q in qualities: if q in text: return q\<close>, then \<open>return 'standard'\<close>.\<close>

fun quality_loop :: "string list \<Rightarrow> string \<Rightarrow> string" where
  "quality_loop [] text = ''standard''"
| "quality_loop (q # qs) text = (if py_in q text then q else quality_loop qs text)"

definition extract_quality :: "string \<Rightarrow> string" where
  "extract_quality text = quality_loop qualities text"

text \<open>\<open>(\d+(?:\.\d+)?)\s*(MB|KB|GB)\<close> under \<open>re.IGNORECASE\<close>: the two groups and what stands between them.\<close>

definition size_number :: rx where
  "size_number = Seq (Plus Digit) (Opt (Seq (Lit (CHR ''.'')) (Plus Digit)))"

definition size_gap :: rx where
  "size_gap = Star Space"

definition size_unit :: rx where
  "size_unit = Alt (lits_ignorecase ''MB'') (Alt (lits_ignorecase ''KB'') (lits_ignorecase ''GB''))"

definition extract_size :: "string \<Rightarrow> string" where
  "extract_size text =
     (case re_search size_number size_gap size_unit text of
        Some (g1, g2) \<Rightarrow> g1 @ '' '' @ upper g2
      | None \<Rightarrow> ''unknown'')"

text \<open>
  What the pattern describes, in words: a number is a run of digits, optionally followed
  by a dot and a second run of digits; a unit is MB, KB or GB in any case; a size stands
  at the start of \<open>s\<close> when \<open>s\<close> is a number, any white space and a unit, followed by anything.
\<close>

definition digits :: "string \<Rightarrow> bool" where
  "digits d = (d \<noteq> [] \<and> list_all is_digit d)"

definition is_number :: "string \<Rightarrow> bool" where
  "is_number num = (\<exists>d1 d2. digits d1 \<and> (num = d1 \<or> (digits d2 \<and> num = d1 @ ''.'' @ d2)))"

definition is_unit :: "string \<Rightarrow> bool" where
  "is_unit u = (lower u = ''mb'' \<or> lower u = ''kb'' \<or> lower u = ''gb'')"

definition size_at :: "string \<Rightarrow> bool" where
  "size_at s = (\<exists>num ws unit rest. s = num @ ws @ unit @ rest \<and> is_number num
                  \<and> list_all is_space ws \<and> is_unit unit)"

text \<open>
  Reading a number off the start of a string: the longest run of digits, and a dot with
  a second run when one follows.
\<close>

definition scan_number :: "string \<Rightarrow> string \<times> string" where
  "scan_number s =
     (let d1 = takeWhile is_digit s; r1 = dropWhile is_digit s in
      case r1 of
        [] \<Rightarrow> (d1, r1)
      | c # r \<Rightarrow>
          if c = CHR ''.'' \<and> takeWhile is_digit r \<noteq> []
          then (d1 @ ''.'' @ takeWhile is_digit r, dropWhile is_digit r)
          else (d1, r1))"

section \<open>The parsed page and the media items\<close>

text \<open>
  The HTML parser is a library. The model starts from what the selectors of the program
  see of the parsed document, in document order: the text of the first \<open>title\<close>
  element, every \<open>a\<close> element with its classes, its \<open>href\<close> attribute (absent or a
  string) and the result of \<open>get_text(strip=True)\<close>, and the \<open>src\<close> attribute of every
  \<open>source\<close> element below a \<open>video\<close> element.
\<close>

record anchor =
  a_classes :: "string list"
  a_href :: "string option"
  a_text :: string

record page =
  title :: "string option"
  anchors :: "anchor list"
  video_sources :: "string option list"

record media_item =
  item_url :: string
  item_type :: string
  item_quality :: string
  item_size :: string

text \<open>\<open>a.get("href", "")\<close> and the attribute selector \<open>a[href*='...']\<close>.\<close>

definition get_attr :: "string option \<Rightarrow> string" where
  "get_attr v = (case v of None \<Rightarrow> [] | Some h \<Rightarrow> h)"

definition href_has :: "string \<Rightarrow> anchor \<Rightarrow> bool" where
  "href_has sub a = (case a_href a of None \<Rightarrow> False | Some h \<Rightarrow> py_in sub h)"

definition has_class :: "string \<Rightarrow> anchor \<Rightarrow> bool" where
  "has_class c a = (c \<in> set (a_classes a))"

text \<open>\<open>a.btn-download, a.download-button, a[href*='.mp4']\<close>\<close>

definition video_selector :: "anchor \<Rightarrow> bool" where
  "video_selector a = (has_class ''btn-download'' a \<or> has_class ''download-button'' a
     \<or> href_has ''.mp4'' a)"

text \<open>\<open>a.btn-download, a.download-button, a[href*='.jpg'], a[href*='.jpeg'], a[href*='.png']\<close>\<close>

definition image_selector :: "anchor \<Rightarrow> bool" where
  "image_selector a = (has_class ''btn-download'' a \<or> has_class ''download-button'' a
     \<or> href_has ''.jpg'' a \<or> href_has ''.jpeg'' a \<or> href_has ''.png'' a)"

text \<open>
  The three scans of \<open>download_from_snapdownloader\<close>; each appends at most one item per
  element. \<open>unescape\<close> is \<open>html.unescape\<close>, a library function.
\<close>

definition video_item :: "(string \<Rightarrow> string) \<Rightarrow> anchor \<Rightarrow> media_item list" where
  "video_item unescape a =
     (let href = unescape (get_attr (a_href a)); text = lower (a_text a)
      in if href \<noteq> [] \<and> (py_in ''.mp4'' href \<or> py_in ''video'' text)
         then [\<lparr>item_url = href, item_type = ''video'', item_quality = extract_quality text,
                item_size = extract_size text\<rparr>]
         else [])"

definition image_item :: "(string \<Rightarrow> string) \<Rightarrow> anchor \<Rightarrow> media_item list" where
  "image_item unescape a =
     (let href = unescape (get_attr (a_href a)); text = lower (a_text a)
      in if href \<noteq> [] \<and> list_ex (\<lambda>e. py_in e href) [''.jpg'', ''.jpeg'', ''.png'']
         then [\<lparr>item_url = href, item_type = ''image'', item_quality = extract_quality text,
                item_size = extract_size text\<rparr>]
         else [])"

definition source_item :: "(string \<Rightarrow> string) \<Rightarrow> string option \<Rightarrow> media_item list" where
  "source_item unescape v =
     (let src = unescape (get_attr v)
      in if src \<noteq> [] \<and> py_in ''.mp4'' src
         then [\<lparr>item_url = src, item_type = ''video'', item_quality = ''unknown'',
                item_size = ''unknown''\<rparr>]
         else [])"

definition anchor_items :: "(string \<Rightarrow> string) \<Rightarrow> page \<Rightarrow> media_item list" where
  "anchor_items unescape pg =
     concat (map (video_item unescape) (filter video_selector (anchors pg)))
     @ concat (map (image_item unescape) (filter image_selector (anchors pg)))"

definition source_items :: "(string \<Rightarrow> string) \<Rightarrow> page \<Rightarrow> media_item list" where
  "source_items unescape pg = concat (map (source_item unescape) (video_sources pg))"

definition media_items :: "(string \<Rightarrow> string) \<Rightarrow> page \<Rightarrow> media_item list" where
  "media_items unescape pg = anchor_items unescape pg @ source_items unescape pg"

text \<open>The loop that removes duplicates, with its two variables \<open>unique_items\<close> and \<open>seen_urls\<close>.\<close>

fun dedup_loop :: "media_item list \<Rightarrow> media_item list \<Rightarrow> string set \<Rightarrow> media_item list" where
  "dedup_loop [] unique seen = unique"
| "dedup_loop (item # items) unique seen =
     (if item_url item \<notin> seen
      then dedup_loop items (unique @ [item]) (insert (item_url item) seen)
      else dedup_loop items unique seen)"

definition unique_items :: "(string \<Rightarrow> string) \<Rightarrow> page \<Rightarrow> media_item list" where
  "unique_items unescape pg = dedup_loop (media_items unescape pg) [] {}"

section \<open>\<open>InstagramDownloader.download_from_snapdownloader\<close>\<close>

text \<open>
  A result dictionary: the keys \<open>media\<close>, \<open>metadata\<close>, \<open>count\<close> and \<open>message\<close> are
  present or not.
\<close>

record result =
  status :: string
  media :: "media_item list option"
  metadata :: "(string \<times> string) list option"
  count :: "nat option"
  message :: "string option"

definition error_result :: "string \<Rightarrow> result" where
  "error_result msg = \<lparr>status = ''error'', media = None, metadata = None, count = None,
     message = Some msg\<rparr>"

text \<open>
  What a GET request comes to: \<open>requests.exceptions.Timeout\<close>, another exception (each
  with its text), or a response with its status code and its body. The remote side is
  any function of the requests made so far and of the address requested; the list of
  the addresses requested is the state the functions pass on.
\<close>

datatype 'b outcome = Timeout string | Raised string | Response nat 'b

record env =
  quote :: "string \<Rightarrow> string"
  unescape :: "string \<Rightarrow> string"
  upstream :: "string list \<Rightarrow> string \<Rightarrow> page outcome"
  remote :: "string list \<Rightarrow> string \<Rightarrow> (string option \<times> string) outcome"

definition page_metadata :: "page \<Rightarrow> (string \<times> string) list" where
  "page_metadata pg = (case title pg of None \<Rightarrow> [] | Some t \<Rightarrow> [(''title'', strip t)])"

definition download_from_snapdownloader ::
  "env \<Rightarrow> string list \<Rightarrow> string \<Rightarrow> string \<Rightarrow> result \<times> string list" where
  "download_from_snapdownloader x sent url downloader_url =
     (let target = downloader_url @ quote x url; sent' = sent @ [target] in
      case upstream x sent target of
        Timeout e \<Rightarrow> (error_result ''Request timeout'', sent')
      | Raised e \<Rightarrow> (error_result e, sent')
      | Response status_code pg \<Rightarrow>
          if status_code \<noteq> 200
          then (error_result (''Failed to load page: '' @ str_nat status_code), sent')
          else
            let items = unique_items (unescape x) pg in
            if items \<noteq> []
            then (\<lparr>status = ''success'', media = Some items, metadata = Some (page_metadata pg),
                    count = Some (length items), message = None\<rparr>, sent')
            else (error_result ''No media found'', sent'))"

section \<open>\<open>Config\<close> and the dispatch (\<open>get_reel\<close>, \<open>get_story\<close>, \<open>get_post\<close>, \<open>get_igtv\<close>, \<open>get_all\<close>)\<close>

definition REEL_DOWNLOADER :: string where
  "REEL_DOWNLOADER = ''https://snapdownloader.com/tools/instagram-reels-downloader/download?url=''"


definition POST_DOWNLOADER :: string where
  "POST_DOWNLOADER = ''https://snapdownloader.com/tools/instagram-photo-downloader/download?url=''"








section \<open>The rate limit (\<open>check_rate_limit\<close>, \<open>before_request\<close>)\<close>

text \<open>
  \<open>request_counts\<close> maps a client address to its counter and the time of the first
  request of its window. The clock is read once per call and is an input.
\<close>

record window =
  w_count :: nat
  w_timestamp :: real

definition check_rate_limit ::
  "('ip \<rightharpoonup> window) \<Rightarrow> 'ip \<Rightarrow> real \<Rightarrow> bool \<times> ('ip \<rightharpoonup> window)" where
  "check_rate_limit request_counts ip current_time =
     (case request_counts ip of
        None \<Rightarrow> (True, request_counts(ip \<mapsto> \<lparr>w_count = 1, w_timestamp = current_time\<rparr>))
      | Some w \<Rightarrow>
          if current_time - w_timestamp w > 3600
          then (True, request_counts(ip \<mapsto> \<lparr>w_count = 1, w_timestamp = current_time\<rparr>))
          else if w_count w \<ge> 100 then (False, request_counts)
          else (True, request_counts(ip \<mapsto> w\<lparr>w_count := w_count w + 1\<rparr>)))"

text \<open>A JSON response: the HTTP status and the body. A file sent as an attachment.\<close>

datatype response =
    Json nat "(string \<times> string) list"
  | Attachment string string string

definition error_body :: "string \<Rightarrow> (string \<times> string) list" where
  "error_body msg = [(''status'', ''error''), (''message'', msg)]"

text \<open>\<open>before_request\<close> answers itself (\<open>Some\<close>) or lets the request through (\<open>None\<close>).\<close>

definition before_request ::
  "('ip \<rightharpoonup> window) \<Rightarrow> string \<Rightarrow> 'ip \<Rightarrow> real \<Rightarrow> response option \<times> ('ip \<rightharpoonup> window)" where
  "before_request request_counts path ip current_time =
     (if path = ''/health'' then (None, request_counts)
      else case check_rate_limit request_counts ip current_time of
             (ok, request_counts') \<Rightarrow>
               if \<not> ok
               then (Some (Json 429 (error_body ''Rate limit exceeded. Please try again later.'')),
                     request_counts')
               else (None, request_counts'))"

text \<open>A run of the server: each request is its path, its client address and the time read.\<close>

fun serve ::
  "('ip \<rightharpoonup> window) \<Rightarrow> (string \<times> 'ip \<times> real) list \<Rightarrow> response option list" where
  "serve request_counts [] = []"
| "serve request_counts ((path, ip, t) # reqs) =
     (case before_request request_counts path ip t of
        (r, request_counts') \<Rightarrow> r # serve request_counts' reqs)"

text \<open>The requests of a run that the limit counts for the address \<open>a\<close>.\<close>

definition counted :: "'ip \<Rightarrow> string \<times> 'ip \<times> real \<Rightarrow> bool" where
  "counted a req = (case req of (path, ip, t) \<Rightarrow> ip = a \<and> path \<noteq> ''/health'')"

text \<open>The answer of \<open>before_request\<close> to a request over the limit.\<close>

definition rejected :: "response option" where
  "rejected = Some (Json 429 (error_body ''Rate limit exceeded. Please try again later.''))"

text \<open>The answers of a run to the requests counted for \<open>a\<close>, and the time of the first of them.\<close>

definition responses_for ::
  "'ip \<Rightarrow> ('ip \<rightharpoonup> window) \<Rightarrow> (string \<times> 'ip \<times> real) list \<Rightarrow> response option list" where
  "responses_for a request_counts reqs =
     map snd (filter (\<lambda>(req, r). counted a req) (zip reqs (serve request_counts reqs)))"

definition window_start :: "'ip \<Rightarrow> (string \<times> 'ip \<times> real) list \<Rightarrow> real" where
  "window_start a reqs = (case filter (counted a) reqs of [] \<Rightarrow> 0 | (path, ip, t) # _ \<Rightarrow> t)"

text \<open>The counters after a run, and the times of the requests counted for \<open>a\<close>.\<close>

fun final_counts ::
  "('ip \<rightharpoonup> window) \<Rightarrow> (string \<times> 'ip \<times> real) list \<Rightarrow> ('ip \<rightharpoonup> window)" where
  "final_counts request_counts [] = request_counts"
| "final_counts request_counts ((path, ip, t) # reqs) =
     final_counts (snd (before_request request_counts path ip t)) reqs"

definition counted_times :: "'ip \<Rightarrow> (string \<times> 'ip \<times> real) list \<Rightarrow> real list" where
  "counted_times a reqs = map (\<lambda>req. snd (snd req)) (filter (counted a) reqs)"

text \<open>
  The fixed window in the words of the specification, over the times of the requests of
  one address: the first request opens a window; a request more than 3600 seconds after
  the first request of the current window opens a new one and is let through; any other
  request belongs to the current window and is let through when fewer than 100 requests
  of that window came before it. \<open>start\<close> is the time of the first request of the
  current window and \<open>k\<close> the number of its requests so far. \<open>window_after\<close> is the
  window at the end.
\<close>

fun fixed_window :: "real \<Rightarrow> nat \<Rightarrow> real list \<Rightarrow> bool list" where
  "fixed_window start k [] = []"
| "fixed_window start k (t # ts) =
     (if t - start > 3600 then True # fixed_window t 1 ts
      else (k < 100) # fixed_window start (Suc k) ts)"

fun window_after :: "real \<Rightarrow> nat \<Rightarrow> real list \<Rightarrow> real \<times> nat" where
  "window_after start k [] = (start, k)"
| "window_after start k (t # ts) =
     (if t - start > 3600 then window_after t 1 ts else window_after start (Suc k) ts)"

definition fixed_window_run :: "real list \<Rightarrow> bool list" where
  "fixed_window_run ts = (case ts of [] \<Rightarrow> [] | t # ts' \<Rightarrow> True # fixed_window t 1 ts')"

text \<open>The answer of \<open>before_request\<close> to a request let through or not.\<close>

definition answer :: "bool \<Rightarrow> response option" where
  "answer admitted = (if admitted then None else rejected)"

section \<open>The proxy (\<open>proxy_download\<close>)\<close>


section \<open>Sample inputs\<close>

text \<open>
  A remote side that answers every request with the same outcome, with the identity for
  the two library functions; an anchor of class \<open>btn-download\<close>.
\<close>

definition stub_env :: "page outcome \<Rightarrow> env" where
  "stub_env out = \<lparr>quote = (\<lambda>s. s), unescape = (\<lambda>s. s), upstream = (\<lambda>sent target. out),
     remote = (\<lambda>sent target. Raised [])\<rparr>"

definition button :: "string \<Rightarrow> string \<Rightarrow> anchor" where
  "button h t = \<lparr>a_classes = [''btn-download''], a_href = Some h, a_text = t\<rparr>"

section \<open>Substring test\<close>



section \<open>The matcher computes the language of a pattern\<close>

lemma rest_of_chars: "set (one_char P s) = rest_of (chars P) s"
  by (auto simp: one_char_def rest_of_def chars_def split: list.splits)

lemma rest_of_conc: "rest_of (conc A B) s = (\<Union>t \<in> rest_of A s. rest_of B t)"
  by (fastforce simp: rest_of_def conc_def)

lemma star_rems_sound:
  "(\<And>s. set (f s) = rest_of A s) \<Longrightarrow> t \<in> set (star_rems f s) \<Longrightarrow> t \<in> rest_of (star A) s"
proof (induction f s rule: star_rems.induct)
  case (1 f s)
  note f = "1.prems"(1)
  from "1.prems"(2)
  have "t = s \<or> (\<exists>t' \<in> set (f s). length t' < length s \<and> t \<in> set (star_rems f t'))"
    by (subst (asm) star_rems.simps) auto
  then show ?case
  proof
    assume "t = s"
    then show ?thesis by (auto simp: rest_of_def intro: star.star_nil)
  next
    assume "\<exists>t' \<in> set (f s). length t' < length s \<and> t \<in> set (star_rems f t')"
    then obtain t' where t': "t' \<in> set (f s)" "length t' < length s" "t \<in> set (star_rems f t')"
      by blast
    then have "t \<in> rest_of (star A) t'" using "1.IH" [of t'] f by simp
    then obtain v where v: "v \<in> star A" "t' = v @ t" by (auto simp: rest_of_def)
    from t'(1) have "t' \<in> rest_of A s" using f by simp
    then obtain u where u: "u \<in> A" "s = u @ t'" by (auto simp: rest_of_def)
    from u v have "u @ v \<in> star A" "s = (u @ v) @ t" by (auto intro: star.star_step)
    then show ?thesis unfolding rest_of_def by blast
  qed
qed

lemma star_rems_self: "s \<in> set (star_rems f s)"
  by (subst star_rems.simps) simp

lemma star_rems_step:
  "t' \<in> set (f s) \<Longrightarrow> length t' < length s \<Longrightarrow> t \<in> set (star_rems f t') \<Longrightarrow> t \<in> set (star_rems f s)"
  by (subst star_rems.simps) auto

lemma star_rems_complete:
  assumes f: "\<And>s. set (f s) = rest_of A s"
  shows "u \<in> star A \<Longrightarrow> s = u @ t \<Longrightarrow> t \<in> set (star_rems f s)"
proof (induction u arbitrary: s rule: star.induct)
  case star_nil
  then show ?case by (simp add: star_rems_self)
next
  case (star_step u v)
  show ?case
  proof (cases "u = []")
    case True
    with star_step show ?thesis by simp
  next
    case False
    let ?t' = "v @ t"
    from star_step.prems have s: "s = u @ ?t'" by simp
    with star_step.hyps(1) have "?t' \<in> set (f s)" unfolding f rest_of_def by blast
    moreover from s False have "length ?t' < length s" by simp
    moreover have "t \<in> set (star_rems f ?t')" by (rule star_step.IH) simp
    ultimately show ?thesis by (rule star_rems_step)
  qed
qed

lemma star_rems_rest:
  assumes "\<And>s. set (f s) = rest_of A s"
  shows "set (star_rems f s) = rest_of (star A) s"
proof
  show "set (star_rems f s) \<subseteq> rest_of (star A) s"
    using star_rems_sound [OF assms] by blast
  show "rest_of (star A) s \<subseteq> set (star_rems f s)"
    using star_rems_complete [OF assms] by (auto simp: rest_of_def)
qed

lemma rems_lang: "set (rems r s) = rest_of (lang r) s"
proof (induction r arbitrary: s)
  case Eps
  show ?case by (auto simp: rest_of_def)
next
  case (Seq a b)
  then show ?case by (simp add: rest_of_conc)
next
  case (Alt a b)
  then show ?case by (auto simp: rest_of_def)
next
  case (Opt a)
  then show ?case by (auto simp: rest_of_def)
next
  case (Star a)
  then show ?case by (simp add: star_rems_rest)
next
  case (Plus a)
  then show ?case by (simp add: rest_of_conc star_rems_rest)
qed (simp_all add: rest_of_chars)



section \<open>Sanitizing a URL\<close>



















section \<open>Removing duplicates\<close>

lemma dedup_loop_acc:
  "dedup_loop items unique seen = unique @ dedup_loop items [] seen"
proof (induction items arbitrary: unique seen)
  case Nil
  show ?case by simp
next
  case (Cons i items)
  show ?case
    using Cons.IH [of "unique @ [i]" "insert (item_url i) seen"]
          Cons.IH [of "[i]" "insert (item_url i) seen"] Cons.IH [of unique seen]
    by simp
qed

lemma dedup_loop_Cons:
  "dedup_loop (i # items) [] seen =
     (if item_url i \<in> seen then dedup_loop items [] seen
      else i # dedup_loop items [] (insert (item_url i) seen))"
  using dedup_loop_acc [of items "[i]" "insert (item_url i) seen"] by simp

lemma dedup_loop_urls:
  "item_url ` set (dedup_loop items [] seen) = item_url ` set items - seen"
  by (induction items arbitrary: seen) (auto simp: dedup_loop_Cons simp del: dedup_loop.simps(2))

lemma dedup_loop_distinct: "distinct (map item_url (dedup_loop items [] seen))"
proof (induction items arbitrary: seen)
  case Nil
  show ?case by simp
next
  case (Cons i items)
  have "item_url i \<notin> item_url ` set (dedup_loop items [] (insert (item_url i) seen))"
    unfolding dedup_loop_urls by simp
  with Cons show ?case by (simp add: dedup_loop_Cons del: dedup_loop.simps(2))
qed

lemma dedup_loop_subseq: "subseq (dedup_loop items [] seen) items"
  by (induction items arbitrary: seen) (auto simp: dedup_loop_Cons simp del: dedup_loop.simps(2))

lemma dedup_loop_first:
  "i \<in> set (dedup_loop items [] seen) \<Longrightarrow> find (\<lambda>c. item_url c = item_url i) items = Some i"
proof (induction items arbitrary: seen)
  case Nil
  then show ?case by simp
next
  case (Cons j items)
  show ?case
  proof (cases "item_url j \<in> seen")
    case True
    with Cons.prems have mem: "i \<in> set (dedup_loop items [] seen)"
      by (simp add: dedup_loop_Cons del: dedup_loop.simps(2))
    then have "item_url i \<in> item_url ` set (dedup_loop items [] seen)" by blast
    then have "item_url i \<notin> seen" unfolding dedup_loop_urls by simp
    with True have "item_url j \<noteq> item_url i" by auto
    with Cons.IH [OF mem] show ?thesis by simp
  next
    case False
    with Cons.prems have "i = j \<or> i \<in> set (dedup_loop items [] (insert (item_url j) seen))"
      by (simp add: dedup_loop_Cons del: dedup_loop.simps(2))
    then show ?thesis
    proof
      assume "i = j"
      then show ?thesis by simp
    next
      assume mem: "i \<in> set (dedup_loop items [] (insert (item_url j) seen))"
      then have "item_url i \<in> item_url ` set (dedup_loop items [] (insert (item_url j) seen))"
        by blast
      then have "item_url i \<noteq> item_url j" unfolding dedup_loop_urls by auto
      with Cons.IH [OF mem] show ?thesis by simp
    qed
  qed
qed

lemma distinct_count_one:
  "distinct (map f xs) \<Longrightarrow> h \<in> f ` set xs \<Longrightarrow> length (filter (\<lambda>i. f i = h) xs) = 1"
proof (induction xs)
  case Nil
  then show ?case by simp
next
  case (Cons x xs)
  show ?case
  proof (cases "f x = h")
    case True
    from Cons.prems(1) have "f x \<notin> f ` set xs" by simp
    with True have "\<forall>i \<in> set xs. f i \<noteq> h" by blast
    then have "filter (\<lambda>i. f i = h) xs = []"
      by (simp add: filter_empty_conv)
    with True show ?thesis by simp
  next
    case False
    with Cons show ?thesis by auto
  qed
qed

lemma unique_items_props:
  "distinct (map item_url (unique_items u pg))"
  "subseq (unique_items u pg) (media_items u pg)"
  "item_url ` set (unique_items u pg) = item_url ` set (media_items u pg)"
  "i \<in> set (unique_items u pg) \<Longrightarrow> find (\<lambda>c. item_url c = item_url i) (media_items u pg) = Some i"
  by (simp_all add: unique_items_def dedup_loop_distinct dedup_loop_subseq dedup_loop_urls dedup_loop_first)

lemma download_media:
  assumes "media (fst (download_from_snapdownloader x sent url d)) = Some m"
  shows "\<exists>pg. upstream x sent (d @ quote x url) = Response 200 pg \<and> m = unique_items (unescape x) pg \<and> m \<noteq> []"
  using assms
  by (auto simp: download_from_snapdownloader_def Let_def error_result_def split: outcome.splits if_splits)


text \<open>
  C5: the media sequence of every extraction result holds no two items with the same
  url, keeps the candidates in the order they were collected, each url represented by
  its first candidate; every url of a candidate occurs exactly once. In particular two
  anchors with the same href give one item.
\<close>

theorem dedup_unique_first_seen:
  assumes "media (fst (download_from_snapdownloader x sent url d)) = Some m"
  shows "\<exists>pg. upstream x sent (d @ quote x url) = Response 200 pg
     \<and> m = unique_items (unescape x) pg
     \<and> distinct (map item_url m)
     \<and> subseq m (media_items (unescape x) pg)
     \<and> item_url ` set m = item_url ` set (media_items (unescape x) pg)
     \<and> (\<forall>i \<in> set m. find (\<lambda>c. item_url c = item_url i) (media_items (unescape x) pg) = Some i)
     \<and> (\<forall>h \<in> item_url ` set (media_items (unescape x) pg).
           length (filter (\<lambda>i. item_url i = h) m) = 1)"
proof -
  from download_media [OF assms] obtain pg where
    pg: "upstream x sent (d @ quote x url) = Response 200 pg" "m = unique_items (unescape x) pg"
    by blast
  have d: "distinct (map item_url m)" unfolding pg(2) by (rule unique_items_props)
  have u: "item_url ` set m = item_url ` set (media_items (unescape x) pg)"
    unfolding pg(2) by (rule unique_items_props)
  have "\<forall>h \<in> item_url ` set (media_items (unescape x) pg). length (filter (\<lambda>i. item_url i = h) m) = 1"
    using distinct_count_one [OF d] u by blast
  moreover have "subseq m (media_items (unescape x) pg)"
    unfolding pg(2) by (rule unique_items_props)
  moreover have "\<forall>i \<in> set m. find (\<lambda>c. item_url c = item_url i) (media_items (unescape x) pg) = Some i"
    unfolding pg(2) by (blast intro: unique_items_props(4))
  ultimately show ?thesis using pg d u by blast
qed


lemma sample_text:
  "lower ''HD 720p 10MB'' = ''hd 720p 10mb''"
  "extract_quality ''hd 720p 10mb'' = ''hd''"
  "extract_size ''hd 720p 10mb'' = ''10 MB''"
  by code_simp+

lemmas page_eval = download_from_snapdownloader_def stub_env_def button_def unique_items_def
  media_items_def anchor_items_def source_items_def video_item_def image_item_def source_item_def
  video_selector_def image_selector_def has_class_def href_has_def get_attr_def

text \<open>
  Two anchors with the same href: two candidates, and one item in the result.
\<close>

theorem dedup_unique_first_seen_witness:
  "media (fst (download_from_snapdownloader
      (stub_env (Response 200 \<lparr>title = None,
         anchors = [button ''https://x/v.mp4'' ''HD 720p 10MB'', button ''https://x/v.mp4'' ''HD 720p 10MB''],
         video_sources = []\<rparr>)) [] ''https://instagram.com/reel/ABC123'' REEL_DOWNLOADER))
   = Some [\<lparr>item_url = ''https://x/v.mp4'', item_type = ''video'', item_quality = ''hd'',
             item_size = ''10 MB''\<rparr>]
   \<and> (\<exists>pg. [\<lparr>item_url = ''https://x/v.mp4'', item_type = ''video'', item_quality = ''hd'',
             item_size = ''10 MB''\<rparr>] = unique_items (\<lambda>s. s) pg \<and> length (media_items (\<lambda>s. s) pg) = 2)"
proof -
  let ?pg = "\<lparr>title = None,
         anchors = [button ''https://x/v.mp4'' ''HD 720p 10MB'', button ''https://x/v.mp4'' ''HD 720p 10MB''],
         video_sources = []\<rparr>"
  let ?x = "stub_env (Response 200 ?pg)"
  let ?m = "[\<lparr>item_url = ''https://x/v.mp4'', item_type = ''video'', item_quality = ''hd'',
             item_size = ''10 MB''\<rparr>]"
  have a: "media (fst (download_from_snapdownloader ?x [] ''https://instagram.com/reel/ABC123'' REEL_DOWNLOADER)) = Some ?m"
    by (simp add: page_eval sample_text)
  have l: "length (media_items (\<lambda>s. s) ?pg) = 2"
    by (simp add: page_eval sample_text)
  from dedup_unique_first_seen [OF a] obtain pg where
    "upstream ?x [] (REEL_DOWNLOADER @ quote ?x ''https://instagram.com/reel/ABC123'') = Response 200 pg"
    "?m = unique_items (unescape ?x) pg" by blast
  then have "pg = ?pg" "?m = unique_items (\<lambda>s. s) pg" by (simp_all add: stub_env_def)
  with a l show ?thesis by blast
qed

section \<open>The quality of a candidate\<close>



lemma video_item_cases:
  "i \<in> set (video_item u a) \<Longrightarrow>
     item_url i = u (get_attr (a_href a)) \<and> item_type i = ''video''
     \<and> item_quality i = extract_quality (lower (a_text a))"
  by (auto simp: video_item_def Let_def split: if_splits)






section \<open>The result of an extraction\<close>

lemma find_append_first:
  "x \<in> set xs \<Longrightarrow> P x \<Longrightarrow> find P (xs @ ys) = find P xs"
  by (induction xs) auto

lemma find_in_set: "find P xs = Some y \<Longrightarrow> y \<in> set xs"
  by (induction xs) (auto split: if_splits)

lemma download_success:
  "upstream x sent (d @ quote x url) = Response 200 pg \<Longrightarrow> unique_items (unescape x) pg \<noteq> [] \<Longrightarrow>
   fst (download_from_snapdownloader x sent url d) =
     \<lparr>status = ''success'', media = Some (unique_items (unescape x) pg),
      metadata = Some (page_metadata pg), count = Some (length (unique_items (unescape x) pg)),
      message = None\<rparr>"
  by (simp add: download_from_snapdownloader_def Let_def)




text \<open>
  C10: an anchor of class \<open>btn-download\<close> or \<open>download-button\<close> whose href holds an
  image extension and which meets the video condition gives a result whose media holds
  its url exactly once, with the type \<open>video\<close>, although the candidates hold an image
  item with that url.
\<close>

theorem video_wins_over_image:
  assumes up: "upstream x sent (d @ quote x url) = Response 200 pg"
    and a: "a \<in> set (anchors pg)"
    and cls: "has_class ''btn-download'' a \<or> has_class ''download-button'' a"
    and img: "list_ex (\<lambda>e. py_in e (unescape x (get_attr (a_href a)))) [''.jpg'', ''.jpeg'', ''.png'']"
    and vid: "py_in ''.mp4'' (unescape x (get_attr (a_href a))) \<or> py_in ''video'' (lower (a_text a))"
  shows "status (fst (download_from_snapdownloader x sent url d)) = ''success''
    \<and> (\<exists>m. media (fst (download_from_snapdownloader x sent url d)) = Some m
          \<and> length (filter (\<lambda>i. item_url i = unescape x (get_attr (a_href a))) m) = 1
          \<and> (\<forall>i \<in> set m. item_url i = unescape x (get_attr (a_href a)) \<longrightarrow> item_type i = ''video''))
    \<and> (\<exists>c \<in> set (media_items (unescape x) pg).
          item_url c = unescape x (get_attr (a_href a)) \<and> item_type c = ''image'')"
proof -
  let ?u = "unescape x"
  let ?h = "?u (get_attr (a_href a))"
  let ?V = "concat (map (video_item ?u) (filter video_selector (anchors pg)))"
  let ?I = "concat (map (image_item ?u) (filter image_selector (anchors pg)))"
  let ?m = "unique_items ?u pg"
  let ?P = "\<lambda>c. item_url c = ?h"
  from img have h: "?h \<noteq> []" by auto
  define v where "v = \<lparr>item_url = ?h, item_type = ''video'',
     item_quality = extract_quality (lower (a_text a)), item_size = extract_size (lower (a_text a))\<rparr>"
  define w where "w = \<lparr>item_url = ?h, item_type = ''image'',
     item_quality = extract_quality (lower (a_text a)), item_size = extract_size (lower (a_text a))\<rparr>"
  from cls have "video_selector a" "image_selector a"
    by (auto simp: video_selector_def image_selector_def)
  moreover from h vid have "video_item ?u a = [v]"
    by (simp add: video_item_def v_def Let_def)
  moreover from h img have "image_item ?u a = [w]"
    by (simp add: image_item_def w_def Let_def)
  ultimately have v: "v \<in> set ?V" and w: "w \<in> set ?I"
    using a by auto
  have items: "media_items ?u pg = ?V @ (?I @ source_items ?u pg)"
    by (simp add: media_items_def anchor_items_def)
  have Pv: "?P v" by (simp add: v_def)
  have "?h \<in> item_url ` set (media_items ?u pg)"
    unfolding items using v Pv by force
  then have hm: "?h \<in> item_url ` set ?m" by (simp add: unique_items_props(3))
  then have ne: "?m \<noteq> []" by auto
  have one: "length (filter ?P ?m) = 1"
    using distinct_count_one [OF unique_items_props(1) hm] .
  have video: "\<forall>i \<in> set ?m. item_url i = ?h \<longrightarrow> item_type i = ''video''"
  proof (intro ballI impI)
    fix i
    assume i: "i \<in> set ?m" and ih: "item_url i = ?h"
    from unique_items_props(4) [OF i] ih have "find ?P (media_items ?u pg) = Some i" by simp
    then have "find ?P ?V = Some i"
      unfolding items using find_append_first [OF v, of ?P] Pv by simp
    then have "i \<in> set ?V" by (rule find_in_set)
    then show "item_type i = ''video''" by (auto dest: video_item_cases)
  qed
  have "w \<in> set (media_items ?u pg)" unfolding items using w by simp
  moreover have "item_url w = ?h \<and> item_type w = ''image''" by (simp add: w_def)
  ultimately have image: "\<exists>c \<in> set (media_items ?u pg). item_url c = ?h \<and> item_type c = ''image''"
    by blast
  from download_success [OF up ne] one video image show ?thesis by simp
qed

text \<open>
  A button with a \<open>.jpg\<close> href and the text "Download Video".
\<close>

theorem video_wins_over_image_witness:
  "fst (download_from_snapdownloader
          (stub_env (Response 200 \<lparr>title = None,
             anchors = [button ''https://x/pic.jpg'' ''Download Video''], video_sources = []\<rparr>)) []
          ''https://instagram.com/p/ABC'' POST_DOWNLOADER)
     = \<lparr>status = ''success'',
        media = Some [\<lparr>item_url = ''https://x/pic.jpg'', item_type = ''video'',
                       item_quality = ''standard'', item_size = ''unknown''\<rparr>],
        metadata = Some [], count = Some 1, message = None\<rparr>
   \<and> length (media_items (\<lambda>s. s) \<lparr>title = None,
             anchors = [button ''https://x/pic.jpg'' ''Download Video''], video_sources = []\<rparr>) = 2"
proof -
  let ?pg = "\<lparr>title = None, anchors = [button ''https://x/pic.jpg'' ''Download Video''],
     video_sources = []\<rparr>"
  let ?x = "stub_env (Response 200 ?pg)"
  have t: "lower ''Download Video'' = ''download video''"
    "extract_quality ''download video'' = ''standard''"
    "extract_size ''download video'' = ''unknown''"
    by code_simp+
  have r: "fst (download_from_snapdownloader ?x [] ''https://instagram.com/p/ABC'' POST_DOWNLOADER)
     = \<lparr>status = ''success'',
        media = Some [\<lparr>item_url = ''https://x/pic.jpg'', item_type = ''video'',
                       item_quality = ''standard'', item_size = ''unknown''\<rparr>],
        metadata = Some [], count = Some 1, message = None\<rparr>"
    by (simp add: page_eval t page_metadata_def)
  have l: "length (media_items (\<lambda>s. s) ?pg) = 2"
    by (simp add: page_eval t)
  have "status (fst (download_from_snapdownloader ?x [] ''https://instagram.com/p/ABC'' POST_DOWNLOADER)) = ''success''"
    using video_wins_over_image [of ?x "[]" POST_DOWNLOADER "''https://instagram.com/p/ABC''" ?pg
        "button ''https://x/pic.jpg'' ''Download Video''"]
    by (simp add: stub_env_def button_def has_class_def get_attr_def t)
  with r l show ?thesis by simp
qed

section \<open>The dispatch\<close>








section \<open>The proxy rejects other extensions\<close>





section \<open>The rate limit window\<close>

lemma responses_for_Nil: "responses_for a rc [] = []"
  by (simp add: responses_for_def)

lemma responses_for_Cons:
  "responses_for a rc ((path, ip, t) # reqs) =
     (if counted a (path, ip, t) then [fst (before_request rc path ip t)] else [])
     @ responses_for a (snd (before_request rc path ip t)) reqs"
  by (simp add: responses_for_def split: prod.splits)

lemma check_other:
  "ip \<noteq> a \<Longrightarrow> snd (check_rate_limit rc ip t) a = rc a"
  by (simp add: check_rate_limit_def split: option.splits)

lemma before_request_uncounted:
  "\<not> counted a (path, ip, t) \<Longrightarrow> snd (before_request rc path ip t) a = rc a"
  using check_other [of ip a rc t]
  by (auto simp: counted_def before_request_def split: prod.splits)

lemma before_request_in_window:
  assumes "rc a = Some w" "t - w_timestamp w \<le> 3600" "path \<noteq> ''/health''"
  shows "before_request rc path a t =
     (if w_count w \<ge> 100 then (rejected, rc)
      else (None, rc(a \<mapsto> w\<lparr>w_count := w_count w + 1\<rparr>)))"
  using assms by (simp add: before_request_def check_rate_limit_def rejected_def)

lemma before_request_fresh:
  assumes "rc a = None" "path \<noteq> ''/health''"
  shows "before_request rc path a t = (None, rc(a \<mapsto> \<lparr>w_count = 1, w_timestamp = t\<rparr>))"
  using assms by (simp add: before_request_def check_rate_limit_def)

lemma in_window:
  assumes "rc a = Some w"
    and "\<forall>req \<in> set reqs. counted a req \<longrightarrow> snd (snd req) - w_timestamp w \<le> 3600"
  shows "responses_for a rc reqs =
     replicate (min (length (filter (counted a) reqs)) (100 - w_count w)) None
     @ replicate (length (filter (counted a) reqs) - (100 - w_count w)) rejected"
  using assms
proof (induction reqs arbitrary: rc w)
  case Nil
  show ?case by (simp add: responses_for_Nil)
next
  case (Cons req reqs)
  obtain path ip t where req: "req = (path, ip, t)" by (cases req)
  show ?case
  proof (cases "counted a req")
    case False
    then have "snd (before_request rc path ip t) a = Some w"
      using before_request_uncounted [of a path ip t rc] Cons.prems(1) req by simp
    with Cons.IH [of "snd (before_request rc path ip t)" w] Cons.prems(2) False show ?thesis
      by (simp add: req responses_for_Cons)
  next
    case True
    then have ip: "ip = a" and path: "path \<noteq> ''/health''" by (simp_all add: req counted_def)
    from Cons.prems(2) True req have t: "t - w_timestamp w \<le> 3600" by simp
    have step: "before_request rc path a t =
       (if w_count w \<ge> 100 then (rejected, rc)
        else (None, rc(a \<mapsto> w\<lparr>w_count := w_count w + 1\<rparr>)))"
      using Cons.prems(1) t path by (rule before_request_in_window)
    show ?thesis
    proof (cases "w_count w \<ge> 100")
      case full: True
      from Cons.IH [of rc w] Cons.prems
      have "responses_for a rc reqs = replicate (length (filter (counted a) reqs)) rejected"
        using full by simp
      with full True show ?thesis
        by (simp add: req ip responses_for_Cons step)
    next
      case room: False
      let ?w = "w\<lparr>w_count := w_count w + 1\<rparr>"
      let ?rc = "rc(a \<mapsto> ?w)"
      have "responses_for a ?rc reqs =
         replicate (min (length (filter (counted a) reqs)) (100 - w_count ?w)) None
         @ replicate (length (filter (counted a) reqs) - (100 - w_count ?w)) rejected"
      proof (rule Cons.IH)
        show "?rc a = Some ?w" by simp
        show "\<forall>req \<in> set reqs. counted a req \<longrightarrow> snd (snd req) - w_timestamp ?w \<le> 3600"
          using Cons.prems(2) by simp
      qed
      then have "responses_for a ?rc reqs =
         replicate (min (length (filter (counted a) reqs)) (100 - (w_count w + 1))) None
         @ replicate (length (filter (counted a) reqs) - (100 - (w_count w + 1))) rejected"
        by simp
      moreover from room have "100 - w_count w = Suc (100 - (w_count w + 1))" by simp
      ultimately show ?thesis using room True
        by (simp add: req ip responses_for_Cons step del: fun_upd_apply)
    qed
  qed
qed

lemma fresh_window:
  assumes "rc a = None"
    and "\<forall>req \<in> set reqs. counted a req \<longrightarrow> snd (snd req) - window_start a reqs \<le> 3600"
  shows "responses_for a rc reqs =
     replicate (min (length (filter (counted a) reqs)) 100) None
     @ replicate (length (filter (counted a) reqs) - 100) rejected"
  using assms
proof (induction reqs arbitrary: rc)
  case Nil
  show ?case by (simp add: responses_for_Nil)
next
  case (Cons req reqs)
  obtain path ip t where req: "req = (path, ip, t)" by (cases req)
  show ?case
  proof (cases "counted a req")
    case False
    then have "snd (before_request rc path ip t) a = None"
      using before_request_uncounted [of a path ip t rc] Cons.prems(1) req by simp
    moreover from False have "window_start a (req # reqs) = window_start a reqs"
      by (simp add: window_start_def)
    ultimately show ?thesis using Cons.IH [of "snd (before_request rc path ip t)"] Cons.prems(2) False
      by (simp add: req responses_for_Cons)
  next
    case True
    then have ip: "ip = a" and path: "path \<noteq> ''/health''" by (simp_all add: req counted_def)
    from True have start: "window_start a (req # reqs) = t"
      by (simp add: window_start_def req)
    let ?w = "\<lparr>w_count = 1, w_timestamp = t\<rparr>"
    let ?rc = "rc(a \<mapsto> ?w)"
    have step: "before_request rc path a t = (None, rc(a \<mapsto> \<lparr>w_count = 1, w_timestamp = t\<rparr>))"
      using Cons.prems(1) path by (rule before_request_fresh)
    have "?rc a = Some ?w" by simp
    moreover have "\<forall>r \<in> set reqs. counted a r \<longrightarrow> snd (snd r) - w_timestamp ?w \<le> 3600"
      using Cons.prems(2) unfolding start by simp
    ultimately have "responses_for a ?rc reqs =
       replicate (min (length (filter (counted a) reqs)) (100 - w_count ?w)) None
       @ replicate (length (filter (counted a) reqs) - (100 - w_count ?w)) rejected"
      using in_window [of ?rc a ?w reqs] by blast
    then show ?thesis using True
      by (simp add: req ip responses_for_Cons step)
  qed
qed

lemma counted_times_Cons:
  "counted_times a ((path, ip, t) # reqs) =
     (if counted a (path, ip, t) then [t] else []) @ counted_times a reqs"
  by (simp add: counted_times_def)

lemma final_counts_Cons:
  "final_counts rc ((path, ip, t) # reqs) = final_counts (snd (before_request rc path ip t)) reqs"
  by simp

lemma window_record: "\<lparr>w_count = w_count w, w_timestamp = w_timestamp w\<rparr> = (w :: window)"
  by simp

lemma before_request_reset:
  assumes "rc a = Some w" "t - w_timestamp w > 3600" "path \<noteq> ''/health''"
  shows "before_request rc path a t = (None, rc(a \<mapsto> \<lparr>w_count = 1, w_timestamp = t\<rparr>))"
  using assms by (simp add: before_request_def check_rate_limit_def)

lemma window_run:
  assumes "rc a = Some w" "w_count w = min k 100"
  shows "responses_for a rc reqs = map answer (fixed_window (w_timestamp w) k (counted_times a reqs))
    \<and> final_counts rc reqs a =
        Some \<lparr>w_count = min (snd (window_after (w_timestamp w) k (counted_times a reqs))) 100,
              w_timestamp = fst (window_after (w_timestamp w) k (counted_times a reqs))\<rparr>"
  using assms
proof (induction reqs arbitrary: rc w k)
  case Nil
  then show ?case
    by (simp add: responses_for_Nil counted_times_def window_record [symmetric])
next
  case (Cons req reqs)
  obtain path ip t where req: "req = (path, ip, t)" by (cases req)
  show ?case
  proof (cases "counted a req")
    case False
    then have "snd (before_request rc path ip t) a = Some w"
      using before_request_uncounted [of a path ip t rc] Cons.prems(1) req by simp
    with Cons.IH [of "snd (before_request rc path ip t)" w k] Cons.prems(2) False show ?thesis
      by (simp add: req responses_for_Cons counted_times_Cons)
  next
    case True
    then have ip: "ip = a" and path: "path \<noteq> ''/health''" by (simp_all add: req counted_def)
    show ?thesis
    proof (cases "t - w_timestamp w > 3600")
      case reset: True
      let ?w = "\<lparr>w_count = 1, w_timestamp = t\<rparr>"
      let ?rc = "rc(a \<mapsto> ?w)"
      have step: "before_request rc path a t = (None, ?rc)"
        using Cons.prems(1) reset path by (rule before_request_reset)
      have "responses_for a ?rc reqs = map answer (fixed_window (w_timestamp ?w) 1 (counted_times a reqs))
        \<and> final_counts ?rc reqs a =
            Some \<lparr>w_count = min (snd (window_after (w_timestamp ?w) 1 (counted_times a reqs))) 100,
                  w_timestamp = fst (window_after (w_timestamp ?w) 1 (counted_times a reqs))\<rparr>"
      proof (rule Cons.IH)
        show "?rc a = Some ?w" by simp
        show "w_count ?w = min 1 100" by simp
      qed
      with reset True show ?thesis
        by (simp add: req ip responses_for_Cons counted_times_Cons step answer_def del: fun_upd_apply)
    next
      case same: False
      then have t: "t - w_timestamp w \<le> 3600" by simp
      have step: "before_request rc path a t =
         (if w_count w \<ge> 100 then (rejected, rc)
          else (None, rc(a \<mapsto> w\<lparr>w_count := w_count w + 1\<rparr>)))"
        using Cons.prems(1) t path by (rule before_request_in_window)
      show ?thesis
      proof (cases "w_count w \<ge> 100")
        case full: True
        with Cons.prems(2) have k: "\<not> k < 100" by simp
        have "responses_for a rc reqs = map answer (fixed_window (w_timestamp w) (Suc k) (counted_times a reqs))
          \<and> final_counts rc reqs a =
              Some \<lparr>w_count = min (snd (window_after (w_timestamp w) (Suc k) (counted_times a reqs))) 100,
                    w_timestamp = fst (window_after (w_timestamp w) (Suc k) (counted_times a reqs))\<rparr>"
        proof (rule Cons.IH)
          show "rc a = Some w" by (rule Cons.prems(1))
          show "w_count w = min (Suc k) 100" using Cons.prems(2) full by simp
        qed
        with full same True k show ?thesis
          by (simp add: req ip responses_for_Cons counted_times_Cons step answer_def)
      next
        case room: False
        with Cons.prems(2) have k: "k < 100" "w_count w = k" by simp_all
        let ?w = "w\<lparr>w_count := w_count w + 1\<rparr>"
        let ?rc = "rc(a \<mapsto> ?w)"
        have "responses_for a ?rc reqs = map answer (fixed_window (w_timestamp ?w) (Suc k) (counted_times a reqs))
          \<and> final_counts ?rc reqs a =
              Some \<lparr>w_count = min (snd (window_after (w_timestamp ?w) (Suc k) (counted_times a reqs))) 100,
                    w_timestamp = fst (window_after (w_timestamp ?w) (Suc k) (counted_times a reqs))\<rparr>"
        proof (rule Cons.IH)
          show "?rc a = Some ?w" by simp
          show "w_count ?w = min (Suc k) 100" using k by simp
        qed
        with room same True k show ?thesis
          by (simp add: req ip responses_for_Cons counted_times_Cons step answer_def del: fun_upd_apply)
      qed
    qed
  qed
qed

lemma fresh_run:
  assumes "rc a = None"
  shows "responses_for a rc reqs = map answer (fixed_window_run (counted_times a reqs))
    \<and> final_counts rc reqs a =
        (case counted_times a reqs of
           [] \<Rightarrow> None
         | t # ts \<Rightarrow> Some \<lparr>w_count = min (snd (window_after t 1 ts)) 100,
                           w_timestamp = fst (window_after t 1 ts)\<rparr>)"
  using assms
proof (induction reqs arbitrary: rc)
  case Nil
  then show ?case by (simp add: responses_for_Nil counted_times_def fixed_window_run_def)
next
  case (Cons req reqs)
  obtain path ip t where req: "req = (path, ip, t)" by (cases req)
  show ?case
  proof (cases "counted a req")
    case False
    then have "snd (before_request rc path ip t) a = None"
      using before_request_uncounted [of a path ip t rc] Cons.prems(1) req by simp
    with Cons.IH [of "snd (before_request rc path ip t)"] False show ?thesis
      by (simp add: req responses_for_Cons counted_times_Cons)
  next
    case True
    then have ip: "ip = a" and path: "path \<noteq> ''/health''" by (simp_all add: req counted_def)
    let ?w = "\<lparr>w_count = 1, w_timestamp = t\<rparr>"
    let ?rc = "rc(a \<mapsto> ?w)"
    have step: "before_request rc path a t = (None, ?rc)"
      using Cons.prems(1) path by (rule before_request_fresh)
    have "responses_for a ?rc reqs = map answer (fixed_window (w_timestamp ?w) 1 (counted_times a reqs))
      \<and> final_counts ?rc reqs a =
          Some \<lparr>w_count = min (snd (window_after (w_timestamp ?w) 1 (counted_times a reqs))) 100,
                w_timestamp = fst (window_after (w_timestamp ?w) 1 (counted_times a reqs))\<rparr>"
    proof (rule window_run)
      show "?rc a = Some ?w" by simp
      show "w_count ?w = min 1 100" by simp
    qed
    with True show ?thesis
      by (simp add: req ip responses_for_Cons counted_times_Cons step answer_def
          fixed_window_run_def del: fun_upd_apply)
  qed
qed


lemma window_after_split:
  "window_after start k ts = (s', k') \<Longrightarrow>
     (s' = start \<and> k' = k + length ts \<and> (\<forall>t \<in> set ts. t - start \<le> 3600))
     \<or> (\<exists>before later. ts = before @ s' # later \<and> k' = Suc (length later)
           \<and> (\<forall>t \<in> set later. t - s' \<le> 3600))"
proof (induction ts arbitrary: start k)
  case Nil
  then show ?case by simp
next
  case (Cons t ts)
  show ?case
  proof (cases "t - start > 3600")
    case True
    with Cons.prems have "window_after t 1 ts = (s', k')" by simp
    from Cons.IH [OF this] show ?thesis
    proof
      assume "s' = t \<and> k' = 1 + length ts \<and> (\<forall>x \<in> set ts. x - t \<le> 3600)"
      then have "t # ts = [] @ s' # ts \<and> k' = Suc (length ts) \<and> (\<forall>x \<in> set ts. x - s' \<le> 3600)"
        by simp
      then show ?thesis by blast
    next
      assume "\<exists>before later. ts = before @ s' # later \<and> k' = Suc (length later)
           \<and> (\<forall>t \<in> set later. t - s' \<le> 3600)"
      then obtain before later where "t # ts = (t # before) @ s' # later" "k' = Suc (length later)"
        "\<forall>t \<in> set later. t - s' \<le> 3600" by auto
      then show ?thesis by blast
    qed
  next
    case False
    with Cons.prems have "window_after start (Suc k) ts = (s', k')" by simp
    from Cons.IH [OF this] show ?thesis
    proof
      assume "s' = start \<and> k' = Suc k + length ts \<and> (\<forall>x \<in> set ts. x - start \<le> 3600)"
      with False show ?thesis by simp
    next
      assume "\<exists>before later. ts = before @ s' # later \<and> k' = Suc (length later)
           \<and> (\<forall>t \<in> set later. t - s' \<le> 3600)"
      then obtain before later where "t # ts = (t # before) @ s' # later" "k' = Suc (length later)"
        "\<forall>t \<in> set later. t - s' \<le> 3600" by auto
      then show ?thesis by blast
    qed
  qed
qed

lemma state_in_window:
  assumes "rc a = None" "final_counts rc reqs a = Some w"
  shows "\<exists>before later. counted_times a reqs = before @ w_timestamp w # later
     \<and> (\<forall>t \<in> set later. t - w_timestamp w \<le> 3600)
     \<and> w_count w = min (Suc (length later)) 100"
proof (cases "counted_times a reqs")
  case Nil
  with fresh_run [of rc a reqs] assms show ?thesis by simp
next
  case (Cons t0 ts)
  obtain s' k' where wa: "window_after t0 1 ts = (s', k')" by (cases "window_after t0 1 ts")
  with fresh_run [of rc a reqs] assms Cons
  have w: "w_timestamp w = s'" "w_count w = min k' 100" by auto
  from window_after_split [OF wa] show ?thesis
  proof
    assume "s' = t0 \<and> k' = 1 + length ts \<and> (\<forall>t \<in> set ts. t - t0 \<le> 3600)"
    then have "counted_times a reqs = [] @ w_timestamp w # ts"
      "\<forall>t \<in> set ts. t - w_timestamp w \<le> 3600" "w_count w = min (Suc (length ts)) 100"
      using Cons w by simp_all
    then show ?thesis by blast
  next
    assume "\<exists>before later. ts = before @ s' # later \<and> k' = Suc (length later)
           \<and> (\<forall>t \<in> set later. t - s' \<le> 3600)"
    then obtain before later where "counted_times a reqs = (t0 # before) @ w_timestamp w # later"
      "\<forall>t \<in> set later. t - w_timestamp w \<le> 3600" "w_count w = min (Suc (length later)) 100"
      using Cons w by auto
    then show ?thesis by blast
  qed
qed

lemma fixed_window_replicate:
  "t - start \<le> 3600 \<Longrightarrow> k + n \<le> 100 \<Longrightarrow>
   fixed_window start k (replicate n t @ ts) = replicate n True @ fixed_window start (k + n) ts"
  by (induction n arbitrary: k) simp_all

text \<open>
  C8: for a client address with no window yet, as long as every counted request comes
  at most 3600 seconds after the first one, the first 100 counted requests are let
  through and every later one, the 101st first, is answered with 429 and the error
  body. A request more than 3600 seconds after the start of the window is let through
  and starts a new window with the count 1. A request to \<open>/health\<close> is let through and
  leaves the counters as they are. Requests of other addresses do not matter. Over any
  run, across resets, the answers are those of the fixed window, whose start is the
  time of the first request of the window; and the timestamp stored for the address is
  the time of a counted request that every later counted request follows by at most
  3600 seconds, the stored count being the number of requests from that one on, at most 100.
\<close>

theorem rate_limit_window:
  "(request_counts a = None
      \<and> (\<forall>req \<in> set reqs. counted a req \<longrightarrow> snd (snd req) - window_start a reqs \<le> 3600)
      \<longrightarrow> responses_for a request_counts reqs =
            replicate (min (length (filter (counted a) reqs)) 100) None
            @ replicate (length (filter (counted a) reqs) - 100) rejected)
   \<and> (request_counts a = Some w \<and> t - w_timestamp w > 3600
      \<longrightarrow> check_rate_limit request_counts a t =
            (True, request_counts(a \<mapsto> \<lparr>w_count = 1, w_timestamp = t\<rparr>)))
   \<and> before_request request_counts ''/health'' a t = (None, request_counts)
   \<and> rejected = Some (Json 429 [(''status'', ''error''),
        (''message'', ''Rate limit exceeded. Please try again later.'')])
   \<and> (request_counts a = None
      \<longrightarrow> responses_for a request_counts reqs = map answer (fixed_window_run (counted_times a reqs)))
   \<and> (request_counts a = None \<and> final_counts request_counts reqs a = Some w'
      \<longrightarrow> (\<exists>before later. counted_times a reqs = before @ w_timestamp w' # later
            \<and> (\<forall>t \<in> set later. t - w_timestamp w' \<le> 3600)
            \<and> w_count w' = min (Suc (length later)) 100))"
proof -
  have "request_counts a = None
      \<and> (\<forall>req \<in> set reqs. counted a req \<longrightarrow> snd (snd req) - window_start a reqs \<le> 3600)
      \<longrightarrow> responses_for a request_counts reqs =
            replicate (min (length (filter (counted a) reqs)) 100) None
            @ replicate (length (filter (counted a) reqs) - 100) rejected"
    using fresh_window [of request_counts a reqs] by blast
  moreover have "request_counts a = Some w \<and> t - w_timestamp w > 3600
      \<longrightarrow> check_rate_limit request_counts a t =
            (True, request_counts(a \<mapsto> \<lparr>w_count = 1, w_timestamp = t\<rparr>))"
    by (simp add: check_rate_limit_def)
  moreover have "before_request request_counts ''/health'' a t = (None, request_counts)"
    by (simp add: before_request_def)
  moreover have "rejected = Some (Json 429 [(''status'', ''error''),
        (''message'', ''Rate limit exceeded. Please try again later.'')])"
    by (simp add: rejected_def error_body_def)
  moreover have "request_counts a = None
      \<longrightarrow> responses_for a request_counts reqs = map answer (fixed_window_run (counted_times a reqs))"
    using fresh_run [of request_counts a reqs] by blast
  moreover have "request_counts a = None \<and> final_counts request_counts reqs a = Some w'
      \<longrightarrow> (\<exists>before later. counted_times a reqs = before @ w_timestamp w' # later
            \<and> (\<forall>t \<in> set later. t - w_timestamp w' \<le> 3600)
            \<and> w_count w' = min (Suc (length later)) 100)"
    using state_in_window [of request_counts a reqs w'] by blast
  ultimately show ?thesis by blast
qed

text \<open>
  100 requests, a health check and a 101st request exactly 3600 seconds after the first;
  a request one second later; 99 requests followed by one inside the window and one past
  it, all let through; the counters after a run that crosses a reset.
\<close>

theorem rate_limit_window_witness:
  "responses_for ''10.0.0.1'' Map.empty
      (replicate 100 (''/download'', ''10.0.0.1'', 10)
         @ [(''/health'', ''10.0.0.1'', 20), (''/info'', ''10.0.0.1'', 3610)])
     = replicate 100 None @ [rejected]
   \<and> check_rate_limit [''10.0.0.1'' \<mapsto> \<lparr>w_count = 100, w_timestamp = 10\<rparr>] ''10.0.0.1'' 3611
     = (True, [''10.0.0.1'' \<mapsto> \<lparr>w_count = 1, w_timestamp = 3611\<rparr>])
   \<and> responses_for ''10.0.0.1'' Map.empty
      (replicate 99 (''/download'', ''10.0.0.1'', 0)
         @ [(''/info'', ''10.0.0.1'', 3000), (''/info'', ''10.0.0.1'', 6000)])
     = replicate 101 None
   \<and> final_counts Map.empty
        [(''/download'', ''10.0.0.1'', 0), (''/info'', ''10.0.0.1'', 3000), (''/info'', ''10.0.0.1'', 6000),
         (''/info'', ''10.0.0.1'', 7000)] ''10.0.0.1''
     = Some \<lparr>w_count = 2, w_timestamp = 6000\<rparr>
   \<and> (\<exists>before later.
         counted_times ''10.0.0.1''
           [(''/download'', ''10.0.0.1'', 0), (''/info'', ''10.0.0.1'', 3000), (''/info'', ''10.0.0.1'', 6000),
            (''/info'', ''10.0.0.1'', 7000)]
         = before @ 6000 # later \<and> length later = 1)"
proof -
  let ?a = "''10.0.0.1''"
  let ?x = "(''/download'', ?a, 10::real)"
  let ?reqs = "replicate 100 ?x @ [(''/health'', ?a, 20), (''/info'', ?a, 3610)]"
  have f: "filter (counted ?a) ?reqs = replicate 100 ?x @ [(''/info'', ?a, 3610)]"
    by (simp add: counted_def)
  have "replicate 100 ?x = ?x # replicate 99 ?x"
    using replicate_Suc [of 99 ?x] by simp
  then have start: "window_start ?a ?reqs = 10"
    unfolding window_start_def f by simp
  have within: "\<forall>req \<in> set ?reqs. counted ?a req \<longrightarrow> snd (snd req) - window_start ?a ?reqs \<le> 3600"
    unfolding start by simp
  have fresh: "(Map.empty :: string \<rightharpoonup> window) ?a = None" by simp
  have n: "length (filter (counted ?a) ?reqs) = 101"
    unfolding f by simp
  from rate_limit_window [of Map.empty ?a ?reqs "\<lparr>w_count = 100, w_timestamp = 10\<rparr>" 0] fresh within
  have 1: "responses_for ?a Map.empty ?reqs = replicate (min 101 100) None @ replicate (101 - 100) rejected"
    unfolding n by blast
  have 2: "check_rate_limit [?a \<mapsto> \<lparr>w_count = 100, w_timestamp = 10\<rparr>] ?a 3611
     = (True, [?a \<mapsto> \<lparr>w_count = 1, w_timestamp = 3611\<rparr>])"
    using rate_limit_window [of "[?a \<mapsto> \<lparr>w_count = 100, w_timestamp = 10\<rparr>]" ?a "[]"
        "\<lparr>w_count = 100, w_timestamp = 10\<rparr>" 3611]
    by simp
  let ?y = "(''/download'', ?a, 0::real)"
  let ?run = "replicate 99 ?y @ [(''/info'', ?a, 3000), (''/info'', ?a, 6000)]"
  have "replicate 99 (0::real) = 0 # replicate 98 0"
    using replicate_Suc [of 98 "0::real"] by simp
  then have times: "counted_times ?a ?run = 0 # (replicate 98 0 @ [3000, 6000])"
    by (simp add: counted_times_def counted_def)
  have "fixed_window 0 1 (replicate 98 0 @ [3000, 6000])
      = replicate 98 True @ fixed_window 0 (1 + 98) [3000, 6000]"
    by (rule fixed_window_replicate) simp_all
  then have "fixed_window_run (counted_times ?a ?run) = True # replicate 98 True @ [True, True]"
    unfolding times fixed_window_run_def by simp
  also have "\<dots> = replicate 101 True"
    using replicate_Suc [of 98 True] replicate_append_same [of 99 True] replicate_append_same [of 100 True]
    by (simp add: numeral_eq_Suc)
  finally have fw: "fixed_window_run (counted_times ?a ?run) = replicate 101 True" .
  from rate_limit_window [of Map.empty ?a ?run "\<lparr>w_count = 100, w_timestamp = 10\<rparr>" 0] fresh
  have "responses_for ?a Map.empty ?run = map answer (fixed_window_run (counted_times ?a ?run))"
    by blast
  then have 3: "responses_for ?a Map.empty ?run = replicate 101 None"
    unfolding fw by (simp add: answer_def)
  let ?short = "[(''/download'', ?a, 0::real), (''/info'', ?a, 3000), (''/info'', ?a, 6000),
         (''/info'', ?a, 7000)]"
  have 4: "final_counts Map.empty ?short ?a = Some \<lparr>w_count = 2, w_timestamp = 6000\<rparr>"
    by (simp add: before_request_def check_rate_limit_def)
  from rate_limit_window [of Map.empty ?a ?short "\<lparr>w_count = 100, w_timestamp = 10\<rparr>" 0
      "\<lparr>w_count = 2, w_timestamp = 6000\<rparr>"] fresh 4
  obtain before later where "counted_times ?a ?short = before @ 6000 # later"
    "(2::nat) = min (Suc (length later)) 100"
    by auto
  then have 5: "\<exists>before later. counted_times ?a ?short = before @ 6000 # later \<and> length later = 1"
    by auto
  from 1 2 3 4 5 show ?thesis by simp
qed

section \<open>The size of a candidate\<close>

lemma lower_chr_letter:
  fixes m :: nat
  assumes m: "97 \<le> m" "m \<le> 122"
  shows "lower_chr a = char_of m \<longleftrightarrow> a = char_of m \<or> a = char_of (m - 32)"
proof -
  let ?n = "of_char a :: nat"
  have n: "?n < 256" by simp
  have a: "a = char_of ?n" by simp
  have eq: "char_of k = (char_of m :: char) \<longleftrightarrow> k = m" if "k < 256" for k :: nat
  proof
    assume "char_of k = (char_of m :: char)"
    then have "(of_char (char_of k :: char) :: nat) = of_char (char_of m :: char)" by simp
    with that m show "k = m" by simp
  qed simp
  have eq': "a = char_of k \<longleftrightarrow> ?n = k" if "k < 256" for k :: nat
  proof
    assume "a = char_of k"
    then have "?n = of_char (char_of k :: char)" by simp
    with that show "?n = k" by simp
  next
    assume "?n = k"
    with a show "a = char_of k" by simp
  qed
  show ?thesis
  proof (cases "(65 \<le> ?n \<and> ?n \<le> 90) \<or> (192 \<le> ?n \<and> ?n \<le> 222 \<and> ?n \<noteq> 215)")
    case True
    then have "lower_chr a = char_of (?n + 32)" unfolding lower_chr_def Let_def by (simp only: if_True)
    moreover from True have "?n + 32 < 256" by auto
    ultimately have "lower_chr a = char_of m \<longleftrightarrow> ?n + 32 = m" using eq by simp
    moreover have "a = char_of m \<longleftrightarrow> ?n = m" using eq' [of m] m by simp
    moreover have "a = char_of (m - 32) \<longleftrightarrow> ?n = m - 32" using eq' [of "m - 32"] m by simp
    ultimately show ?thesis using True m by auto
  next
    case False
    then have "lower_chr a = a" unfolding lower_chr_def Let_def by (simp only: if_False)
    moreover have "a = char_of m \<longleftrightarrow> ?n = m" using eq' [of m] m by simp
    moreover have "a = char_of (m - 32) \<longleftrightarrow> ?n = m - 32" using eq' [of "m - 32"] m by simp
    ultimately show ?thesis using False m by auto
  qed
qed

lemma char_codes:
  "char_of (109 :: nat) = CHR ''m''" "char_of (77 :: nat) = CHR ''M''"
  "char_of (107 :: nat) = CHR ''k''" "char_of (75 :: nat) = CHR ''K''"
  "char_of (103 :: nat) = CHR ''g''" "char_of (71 :: nat) = CHR ''G''"
  "char_of (98 :: nat) = CHR ''b''" "char_of (66 :: nat) = CHR ''B''"
  by code_simp+

lemma lower_chr_unit_letters:
  "lower_chr a = CHR ''m'' \<longleftrightarrow> a = CHR ''m'' \<or> a = CHR ''M''"
  "lower_chr a = CHR ''k'' \<longleftrightarrow> a = CHR ''k'' \<or> a = CHR ''K''"
  "lower_chr a = CHR ''g'' \<longleftrightarrow> a = CHR ''g'' \<or> a = CHR ''G''"
  "lower_chr a = CHR ''b'' \<longleftrightarrow> a = CHR ''b'' \<or> a = CHR ''B''"
  using lower_chr_letter [of 109 a] lower_chr_letter [of 107 a] lower_chr_letter [of 103 a]
    lower_chr_letter [of 98 a]
  by (simp_all add: char_codes)

lemma star_chars: "star (chars P) = {w. list_all P w}"
proof
  show "star (chars P) \<subseteq> {w. list_all P w}"
  proof
    fix w
    assume "w \<in> star (chars P)"
    then have "list_all P w" by (induction rule: star.induct) (auto simp: chars_def)
    then show "w \<in> {w. list_all P w}" by simp
  qed
  show "{w. list_all P w} \<subseteq> star (chars P)"
  proof
    fix w
    assume "w \<in> {w. list_all P w}"
    then have "list_all P w" by simp
    then show "w \<in> star (chars P)"
    proof (induction w)
      case Nil
      show ?case by (rule star.star_nil)
    next
      case (Cons c w)
      then have "[c] \<in> chars P" "w \<in> star (chars P)" by (simp_all add: chars_def)
      then have "[c] @ w \<in> star (chars P)" by (rule star.star_step)
      then show ?case by simp
    qed
  qed
qed

lemma plus_chars: "conc (chars P) (star (chars P)) = {w. w \<noteq> [] \<and> list_all P w}"
proof -
  have "w \<in> conc (chars P) {w. list_all P w} \<longleftrightarrow> w \<noteq> [] \<and> list_all P w" for w
  proof
    assume "w \<in> conc (chars P) {w. list_all P w}"
    then obtain c v where "w = [c] @ v" "P c" "list_all P v"
      by (auto simp: conc_def chars_def)
    then show "w \<noteq> [] \<and> list_all P w" by simp
  next
    assume "w \<noteq> [] \<and> list_all P w"
    then obtain c v where "w = [c] @ v" "P c" "list_all P v"
      by (cases w) auto
    then have "[c] \<in> chars P" "v \<in> {w. list_all P w}" by (simp_all add: chars_def)
    with \<open>w = [c] @ v\<close> show "w \<in> conc (chars P) {w. list_all P w}"
      unfolding conc_def by blast
  qed
  then show ?thesis unfolding star_chars by blast
qed

lemma chars_eq: "chars ((=) c) = {[c]}"
  by (auto simp: chars_def)

lemma lang_size_number: "lang size_number = {num. is_number num}"
proof -
  have "lang size_number = conc {d. digits d} (insert [] (conc {''.''} {d. digits d}))"
    by (simp add: size_number_def plus_chars chars_eq digits_def)
  also have "\<dots> = {num. is_number num}"
    unfolding conc_def is_number_def by auto
  finally show ?thesis .
qed

lemma lang_size_gap: "lang size_gap = {ws. list_all is_space ws}"
  by (simp add: size_gap_def star_chars)

lemma lower_two: "lower u = [x, y] \<longleftrightarrow> (\<exists>a b. u = [a, b] \<and> lower_chr a = x \<and> lower_chr b = y)"
  by (auto simp: lower_def map_eq_Cons_conv)

lemma lower_letters:
  "lower_chr (CHR ''M'') = CHR ''m''" "lower_chr (CHR ''K'') = CHR ''k''"
  "lower_chr (CHR ''G'') = CHR ''g''" "lower_chr (CHR ''B'') = CHR ''b''"
  by code_simp+

lemma lang_two_letters:
  "lang (lits_ignorecase [x, y]) = {u. \<exists>a b. u = [a, b] \<and> lower_chr a = lower_chr x \<and> lower_chr b = lower_chr y}"
proof -
  have "u \<in> lang (lits_ignorecase [x, y])
     \<longleftrightarrow> (\<exists>a b. u = [a, b] \<and> lower_chr a = lower_chr x \<and> lower_chr b = lower_chr y)" for u
  proof
    assume "u \<in> lang (lits_ignorecase [x, y])"
    then show "\<exists>a b. u = [a, b] \<and> lower_chr a = lower_chr x \<and> lower_chr b = lower_chr y"
      by (auto simp: conc_def chars_def eq_ignorecase_def)
  next
    assume "\<exists>a b. u = [a, b] \<and> lower_chr a = lower_chr x \<and> lower_chr b = lower_chr y"
    then obtain a b where ab: "u = [a] @ ([b] @ [])" "lower_chr a = lower_chr x" "lower_chr b = lower_chr y"
      by auto
    then have "[a] \<in> chars (eq_ignorecase x)" "[b] \<in> chars (eq_ignorecase y)"
      by (simp_all add: chars_def eq_ignorecase_def)
    then have "[a] @ ([b] @ []) \<in> conc (chars (eq_ignorecase x)) (conc (chars (eq_ignorecase y)) {[]})"
      unfolding conc_def by blast
    with ab(1) show "u \<in> lang (lits_ignorecase [x, y])" by simp
  qed
  then show ?thesis by blast
qed

lemma lang_size_unit: "lang size_unit = {u. is_unit u}"
  unfolding size_unit_def is_unit_def lower_two
  by (simp only: lang.simps lang_two_letters lower_letters) blast

lemma unit_letters:
  assumes "is_unit u"
  shows "\<exists>a b. u = [a, b] \<and> a \<in> set ''mMkKgG'' \<and> b \<in> set ''bB''"
  using assms unfolding is_unit_def lower_two lower_chr_unit_letters by auto

lemma unit_upper:
  assumes "is_unit u"
  shows "upper u \<in> {''MB'', ''KB'', ''GB''}"
proof -
  have up: "upper_chr (CHR ''m'') = CHR ''M''" "upper_chr (CHR ''M'') = CHR ''M''"
    "upper_chr (CHR ''k'') = CHR ''K''" "upper_chr (CHR ''K'') = CHR ''K''"
    "upper_chr (CHR ''g'') = CHR ''G''" "upper_chr (CHR ''G'') = CHR ''G''"
    "upper_chr (CHR ''b'') = CHR ''B''" "upper_chr (CHR ''B'') = CHR ''B''"
    by code_simp+
  from unit_letters [OF assms] obtain a b where
    "u = [a, b]" "a \<in> set ''mMkKgG''" "b \<in> set ''bB''" by blast
  then show ?thesis by (auto simp: upper_def up)
qed

lemma unit_head:
  assumes "is_unit u"
  shows "length u = 2 \<and> \<not> is_digit (hd u) \<and> hd u \<noteq> CHR ''.'' \<and> \<not> is_space (hd u)"
proof -
  have d: "\<not> is_digit (CHR ''m'')" "\<not> is_digit (CHR ''M'')" "\<not> is_digit (CHR ''k'')"
    "\<not> is_digit (CHR ''K'')" "\<not> is_digit (CHR ''g'')" "\<not> is_digit (CHR ''G'')"
    by code_simp+
  have s: "\<not> is_space (CHR ''m'')" "\<not> is_space (CHR ''M'')" "\<not> is_space (CHR ''k'')"
    "\<not> is_space (CHR ''K'')" "\<not> is_space (CHR ''g'')" "\<not> is_space (CHR ''G'')"
    by code_simp+
  from unit_letters [OF assms] obtain a b where
    "u = [a, b]" "a \<in> set ''mMkKgG''" by blast
  then show ?thesis using d s by auto
qed

lemma space_not_digit: "is_space c \<Longrightarrow> \<not> is_digit c \<and> c \<noteq> CHR ''.''"
  by (auto simp: is_space_def is_digit_def in_range_def Let_def)

lemma dot_not_digit: "\<not> is_digit (CHR ''.'')"
  by code_simp

lemma takeWhile_run:
  "list_all P d \<Longrightarrow> t = [] \<or> \<not> P (hd t) \<Longrightarrow> takeWhile P (d @ t) = d \<and> dropWhile P (d @ t) = t"
proof (induction d)
  case Nil
  then show ?case by (cases t) simp_all
next
  case (Cons c d)
  then show ?case by simp
qed

lemma scan_number:
  assumes "is_number n" "t \<noteq> []" "\<not> is_digit (hd t)" "hd t \<noteq> CHR ''.''"
  shows "scan_number (n @ t) = (n, t)"
proof -
  from assms(1) obtain d1 d2 where d1: "digits d1"
    and n: "n = d1 \<or> (digits d2 \<and> n = d1 @ ''.'' @ d2)"
    unfolding is_number_def by blast
  from n show ?thesis
  proof
    assume "n = d1"
    moreover have "takeWhile is_digit (d1 @ t) = d1 \<and> dropWhile is_digit (d1 @ t) = t"
      using d1 assms(3) by (intro takeWhile_run) (simp_all add: digits_def)
    ultimately show ?thesis using assms(2,4)
      by (cases t) (simp_all add: scan_number_def)
  next
    assume "digits d2 \<and> n = d1 @ ''.'' @ d2"
    then have d2: "digits d2" and n': "n @ t = d1 @ (CHR ''.'' # d2 @ t)" by simp_all
    have 1: "takeWhile is_digit (d1 @ (CHR ''.'' # d2 @ t)) = d1
        \<and> dropWhile is_digit (d1 @ (CHR ''.'' # d2 @ t)) = CHR ''.'' # d2 @ t"
      using d1 dot_not_digit by (intro takeWhile_run) (simp_all add: digits_def)
    have 2: "takeWhile is_digit (d2 @ t) = d2 \<and> dropWhile is_digit (d2 @ t) = t"
      using d2 assms(3) by (intro takeWhile_run) (simp_all add: digits_def)
    from d2 have "d2 \<noteq> []" by (simp add: digits_def)
    with 1 2 show ?thesis
      unfolding n' scan_number_def using \<open>digits d2 \<and> n = d1 @ ''.'' @ d2\<close> by simp
  qed
qed

lemma size_tail:
  assumes "list_all is_space v" "is_unit y"
  shows "v @ y @ z \<noteq> [] \<and> \<not> is_digit (hd (v @ y @ z)) \<and> hd (v @ y @ z) \<noteq> CHR ''.''"
proof (cases v)
  case Nil
  from unit_head [OF assms(2)] have "y \<noteq> []" "\<not> is_digit (hd y)" "hd y \<noteq> CHR ''.''"
    by auto
  with Nil show ?thesis by simp
next
  case (Cons c v')
  with assms(1) have "is_space c" by simp
  with Cons space_not_digit [of c] show ?thesis by simp
qed

lemma gap_run:
  assumes "list_all is_space w" "is_unit u"
  shows "dropWhile is_space (w @ u @ r) = u @ r"
proof -
  from unit_head [OF assms(2)] have "u \<noteq> []" "\<not> is_space (hd u)" by auto
  then have "u @ r = [] \<or> \<not> is_space (hd (u @ r))" by simp
  with assms(1) show ?thesis using takeWhile_run [of is_space w "u @ r"] by simp
qed

lemma size_unique:
  assumes eq: "n @ w @ u @ r = n' @ w' @ u' @ r'"
    and n: "is_number n" "is_number n'"
    and w: "list_all is_space w" "list_all is_space w'"
    and u: "is_unit u" "is_unit u'"
  shows "n = n' \<and> u = u'"
proof -
  have 1: "scan_number (n @ (w @ u @ r)) = (n, w @ u @ r)"
    using n(1) size_tail [OF w(1) u(1), of r] by (intro scan_number) blast+
  have 2: "scan_number (n' @ (w' @ u' @ r')) = (n', w' @ u' @ r')"
    using n(2) size_tail [OF w(2) u(2), of r'] by (intro scan_number) blast+
  from eq have "scan_number (n @ (w @ u @ r)) = scan_number (n' @ (w' @ u' @ r'))"
    by (rule arg_cong)
  then have "(n, w @ u @ r) = (n', w' @ u' @ r')" unfolding 1 2 .
  then have nn: "n = n'" and rest: "w @ u @ r = w' @ u' @ r'"
    by (simp_all only: prod.inject)
  from rest have "dropWhile is_space (w @ u @ r) = dropWhile is_space (w' @ u' @ r')"
    by (rule arg_cong)
  then have ur: "u @ r = u' @ r'"
    unfolding gap_run [OF w(1) u(1)] gap_run [OF w(2) u(2)] .
  have "length u = length u'" using unit_head [OF u(1)] unit_head [OF u(2)] by simp
  with ur have "u = u'" by (metis append_eq_append_conv)
  with nn show ?thesis by (rule conjI)
qed

lemma groups_of_split:
  "groups_of (u1 @ u2 @ u3 @ r) (u2 @ u3 @ r) (u3 @ r) r = (u1, u3)"
  by (simp add: groups_of_def)

lemma candidates_set:
  "set (concat (map (match_gap mid g2 s) (rems g1 s))) =
     {(u1, u3) | u1 u2 u3 r. s = u1 @ u2 @ u3 @ r \<and> u1 \<in> lang g1 \<and> u2 \<in> lang mid \<and> u3 \<in> lang g2}"
  (is "?L = ?R")
proof
  show "?L \<subseteq> ?R"
  proof
    fix g
    assume "g \<in> ?L"
    then obtain t1 t2 t3 where t: "t1 \<in> set (rems g1 s)" "t2 \<in> set (rems mid t1)"
        "t3 \<in> set (rems g2 t2)" and g: "g = groups_of s t1 t2 t3"
      by (auto simp: match_gap_def match_unit_def)
    from t obtain u1 u2 u3 where u: "u1 \<in> lang g1" "s = u1 @ t1" "u2 \<in> lang mid" "t1 = u2 @ t2"
        "u3 \<in> lang g2" "t2 = u3 @ t3"
      unfolding rems_lang rest_of_def by blast
    then have s: "s = u1 @ u2 @ u3 @ t3" by simp
    have "g = (u1, u3)"
      unfolding g u(4) u(6) s by (rule groups_of_split)
    with u s show "g \<in> ?R" by blast
  qed
  show "?R \<subseteq> ?L"
  proof
    fix g
    assume "g \<in> ?R"
    then obtain u1 u2 u3 r where u: "g = (u1, u3)" "s = u1 @ u2 @ u3 @ r" "u1 \<in> lang g1"
        "u2 \<in> lang mid" "u3 \<in> lang g2" by blast
    let ?t1 = "u2 @ u3 @ r" and ?t2 = "u3 @ r"
    have 1: "?t1 \<in> set (rems g1 s)" unfolding rems_lang rest_of_def using u by blast
    have 2: "?t2 \<in> set (rems mid ?t1)" unfolding rems_lang rest_of_def using u by blast
    have 3: "r \<in> set (rems g2 ?t2)" unfolding rems_lang rest_of_def using u by blast
    have "g = groups_of s ?t1 ?t2 r" unfolding u(1) u(2) by (rule groups_of_split [symmetric])
    with 3 have "g \<in> set (match_unit g2 s ?t1 ?t2)" by (simp add: match_unit_def)
    with 2 have "g \<in> set (match_gap mid g2 s ?t1)" by (auto simp: match_gap_def)
    with 1 show "g \<in> ?L" by auto
  qed
qed

lemma first_None: "(case xs of [] \<Rightarrow> None | g # _ \<Rightarrow> Some g) = None \<longleftrightarrow> set xs = {}"
  by (cases xs) simp_all

lemma first_Some: "(case xs of [] \<Rightarrow> None | g # _ \<Rightarrow> Some g) = Some y \<Longrightarrow> y \<in> set xs"
  by (cases xs) auto

lemma match_groups_None:
  "match_groups g1 mid g2 s = None \<longleftrightarrow>
     \<not> (\<exists>u1 u2 u3 r. s = u1 @ u2 @ u3 @ r \<and> u1 \<in> lang g1 \<and> u2 \<in> lang mid \<and> u3 \<in> lang g2)"
proof -
  have "match_groups g1 mid g2 s = None
      \<longleftrightarrow> set (concat (map (match_gap mid g2 s) (rems g1 s))) = {}"
    unfolding match_groups_def by (rule first_None)
  then show ?thesis unfolding candidates_set by blast
qed

lemma match_groups_Some:
  assumes "match_groups g1 mid g2 s = Some g"
  shows "\<exists>u1 u2 u3 r. g = (u1, u3) \<and> s = u1 @ u2 @ u3 @ r \<and> u1 \<in> lang g1 \<and> u2 \<in> lang mid
      \<and> u3 \<in> lang g2"
proof -
  from assms have "g \<in> set (concat (map (match_gap mid g2 s) (rems g1 s)))"
    unfolding match_groups_def by (rule first_Some)
  then show ?thesis unfolding candidates_set by blast
qed

lemma size_match_None:
  "match_groups size_number size_gap size_unit s = None \<longleftrightarrow> \<not> size_at s"
  unfolding match_groups_None size_at_def lang_size_number lang_size_gap lang_size_unit
  by blast

lemma size_match_Some:
  assumes "s = n @ w @ u @ r" "is_number n" "list_all is_space w" "is_unit u"
  shows "match_groups size_number size_gap size_unit s = Some (n, u)"
proof -
  from assms have "size_at s" unfolding size_at_def by blast
  then obtain g where g: "match_groups size_number size_gap size_unit s = Some g"
    using size_match_None [of s] by (cases "match_groups size_number size_gap size_unit s") auto
  from match_groups_Some [OF g] obtain n' w' u' r' where
    d: "g = (n', u')" "s = n' @ w' @ u' @ r'" "is_number n'" "list_all is_space w'" "is_unit u'"
    unfolding lang_size_number lang_size_gap lang_size_unit by blast
  have "n @ w @ u @ r = n' @ w' @ u' @ r'"
    using d(2) unfolding assms(1) .
  from size_unique [OF this assms(2) d(3) assms(3) d(4) assms(4) d(5)] g d(1)
  show ?thesis by simp
qed

lemma re_search_skip:
  "\<forall>k < length pre. match_groups g1 mid g2 (drop k (pre @ rest)) = None \<Longrightarrow>
   re_search g1 mid g2 (pre @ rest) = re_search g1 mid g2 rest"
proof (induction pre)
  case Nil
  show ?case by simp
next
  case (Cons c pre)
  from Cons.prems have "match_groups g1 mid g2 (drop 0 ((c # pre) @ rest)) = None" by blast
  then have here: "match_groups g1 mid g2 (c # pre @ rest) = None" by simp
  have "\<forall>k < length pre. match_groups g1 mid g2 (drop k (pre @ rest)) = None"
  proof (intro allI impI)
    fix k
    assume "k < length pre"
    then have "Suc k < length (c # pre)" by simp
    with Cons.prems have "match_groups g1 mid g2 (drop (Suc k) ((c # pre) @ rest)) = None"
      by blast
    then show "match_groups g1 mid g2 (drop k (pre @ rest)) = None" by simp
  qed
  with Cons.IH here show ?case by simp
qed

lemma re_search_hit:
  "match_groups g1 mid g2 s = Some g \<Longrightarrow> re_search g1 mid g2 s = Some g"
  by (cases s) simp_all

lemma re_search_none:
  "\<forall>k \<le> length s. match_groups g1 mid g2 (drop k s) = None \<Longrightarrow> re_search g1 mid g2 s = None"
proof (induction s)
  case Nil
  then show ?case by simp
next
  case (Cons c s)
  from Cons.prems have "match_groups g1 mid g2 (drop 0 (c # s)) = None" by blast
  then have here: "match_groups g1 mid g2 (c # s) = None" by simp
  have "\<forall>k \<le> length s. match_groups g1 mid g2 (drop k s) = None"
  proof (intro allI impI)
    fix k
    assume "k \<le> length s"
    then have "Suc k \<le> length (c # s)" by simp
    with Cons.prems have "match_groups g1 mid g2 (drop (Suc k) (c # s)) = None" by blast
    then show "match_groups g1 mid g2 (drop k s) = None" by simp
  qed
  with Cons.IH here show ?case by simp
qed

text \<open>
  C4: when the text holds a number (digits, optionally a dot and digits), any white
  space and a unit MB, KB or GB in any case, and no such occurrence starts further to
  the left, \<open>_extract_size\<close> returns the number, one space and the unit in upper case,
  which is MB, KB or GB. When no such occurrence starts anywhere in the text it
  returns \<open>unknown\<close>. The text "Size: 12.5 MB" gives "12.5 MB".
\<close>

theorem extract_size_first_occurrence:
  "(text = pre @ num @ ws @ unit @ post \<and> is_number num \<and> list_all is_space ws \<and> is_unit unit
      \<and> (\<forall>k < length pre. \<not> size_at (drop k text))
      \<longrightarrow> extract_size text = num @ '' '' @ upper unit \<and> upper unit \<in> {''MB'', ''KB'', ''GB''})
   \<and> ((\<forall>k \<le> length text. \<not> size_at (drop k text)) \<longrightarrow> extract_size text = ''unknown'')
   \<and> extract_size ''Size: 12.5 MB'' = ''12.5 MB''"
proof -
  have found: "extract_size text = num @ '' '' @ upper unit \<and> upper unit \<in> {''MB'', ''KB'', ''GB''}"
    if t: "text = pre @ num @ ws @ unit @ post" and s: "is_number num" "list_all is_space ws"
      "is_unit unit" and first: "\<forall>k < length pre. \<not> size_at (drop k text)"
  proof -
    let ?rest = "num @ ws @ unit @ post"
    have "\<forall>k < length pre. match_groups size_number size_gap size_unit (drop k (pre @ ?rest)) = None"
      using first unfolding t size_match_None .
    then have "re_search size_number size_gap size_unit (pre @ ?rest)
        = re_search size_number size_gap size_unit ?rest"
      by (rule re_search_skip)
    also have "\<dots> = Some (num, unit)"
      using size_match_Some [OF refl s] by (rule re_search_hit)
    finally have "extract_size text = num @ '' '' @ upper unit"
      unfolding t extract_size_def by simp
    with unit_upper [OF s(3)] show ?thesis by blast
  qed
  have missing: "extract_size text = ''unknown''"
    if "\<forall>k \<le> length text. \<not> size_at (drop k text)"
  proof -
    from that have "\<forall>k \<le> length text. match_groups size_number size_gap size_unit (drop k text) = None"
      unfolding size_match_None .
    then have "re_search size_number size_gap size_unit text = None" by (rule re_search_none)
    then show ?thesis by (simp add: extract_size_def)
  qed
  have example: "extract_size ''Size: 12.5 MB'' = ''12.5 MB''"
    by code_simp
  from found missing example show ?thesis by blast
qed

lemma size_at_digit:
  assumes "size_at s"
  shows "s \<noteq> [] \<and> is_digit (hd s)"
proof -
  from assms obtain num rest d1 d2 where "s = num @ rest" "digits d1"
    "num = d1 \<or> (digits d2 \<and> num = d1 @ ''.'' @ d2)"
    unfolding size_at_def is_number_def by blast
  then obtain t where "s = d1 @ t" "d1 \<noteq> []" "list_all is_digit d1"
    by (auto simp: digits_def)
  then show ?thesis by (cases d1) simp_all
qed

lemma no_size_before:
  assumes "\<forall>c \<in> set pre. \<not> is_digit c"
  shows "\<forall>k < length pre. \<not> size_at (drop k (pre @ rest))"
proof (intro allI impI)
  fix k
  assume k: "k < length pre"
  then have "drop k (pre @ rest) = (pre ! k) # drop (Suc k) pre @ rest"
    by (simp add: Cons_nth_drop_Suc)
  moreover from k assms have "\<not> is_digit (pre ! k)" by simp
  ultimately show "\<not> size_at (drop k (pre @ rest))"
    using size_at_digit [of "drop k (pre @ rest)"] by auto
qed

lemma no_size_at_all:
  assumes "\<forall>c \<in> set s. \<not> is_digit c"
  shows "\<forall>k \<le> length s. \<not> size_at (drop k s)"
proof (intro allI impI notI)
  fix k
  assume "size_at (drop k s)"
  then have "drop k s \<noteq> []" "is_digit (hd (drop k s))"
    using size_at_digit by blast+
  moreover then have "hd (drop k s) \<in> set s"
    by (meson hd_in_set in_set_dropD)
  ultimately show False using assms by blast
qed

text \<open>
  The text "Size: 12.5 MB" split at its first occurrence, and a text without digits.
\<close>

theorem extract_size_first_occurrence_witness:
  "is_number ''12.5'' \<and> list_all is_space '' '' \<and> is_unit ''MB''
   \<and> extract_size (''Size: '' @ ''12.5'' @ '' '' @ ''MB'' @ '''') = ''12.5'' @ '' '' @ upper ''MB''
   \<and> upper ''MB'' = ''MB''
   \<and> extract_size ''HD'' = ''unknown''"
proof -
  have d: "digits ''12''" "digits ''5''" by code_simp+
  have "''12.5'' = ''12'' @ ''.'' @ ''5''" by simp
  with d have n: "is_number ''12.5''" unfolding is_number_def by blast
  have w: "list_all is_space '' ''" by code_simp
  have u: "is_unit ''MB''" by code_simp
  have up: "upper ''MB'' = ''MB''" by code_simp
  have "\<forall>c \<in> set ''Size: ''. \<not> is_digit c" by code_simp
  then have first: "\<forall>k < length ''Size: ''.
      \<not> size_at (drop k (''Size: '' @ ''12.5'' @ '' '' @ ''MB'' @ ''''))"
    by (rule no_size_before)
  have "\<forall>c \<in> set ''HD''. \<not> is_digit c" by code_simp
  then have none: "\<forall>k \<le> length ''HD''. \<not> size_at (drop k ''HD'')"
    by (rule no_size_at_all)
  from extract_size_first_occurrence
    [of "''Size: '' @ ''12.5'' @ '' '' @ ''MB'' @ ''''" "''Size: ''" "''12.5''" "'' ''" "''MB''" "''''"]
    n w u first
  have a: "extract_size (''Size: '' @ ''12.5'' @ '' '' @ ''MB'' @ '''') = ''12.5'' @ '' '' @ upper ''MB''"
    by blast
  from extract_size_first_occurrence [of "''HD''" "[]" "[]" "[]" "[]" "[]"] none
  have b: "extract_size ''HD'' = ''unknown''"
    by blast
  from n w u a up b show ?thesis by blast
qed

end
